theory Spec2Isabelle
  imports Complex_Main "HOL-Library.Word" "HOL-Library.AList"
begin

section \<open>Common JavaScript values\<close>

text \<open>
  Errors are values. \<open>Error\<close> is a plain \<^verbatim>\<open>new Error(message)\<close> thrown by the
  program; \<open>TypeError\<close> and \<open>RangeError\<close> are the ones the JavaScript runtime throws
  (calling something that is not a function, reading outside a buffer).
\<close>

datatype js_error = Error string | TypeError string | RangeError string

type_synonym buffer = "8 word list"

section \<open>MessageCreationUtil: hash and computeStreamPartition\<close>

text \<open>
  \<^verbatim>\<open>this.cachedHashes = {}\<close> is a plain object, so a property read
  \<^verbatim>\<open>this.cachedHashes[key]\<close> looks at the object's own properties first and then
  at \<^verbatim>\<open>Object.prototype\<close>. The own properties are the digests the program stored;
  what is inherited is a function or an object of the runtime, never a Buffer and never
  \<^verbatim>\<open>undefined\<close>.
\<close>

definition object_prototype_keys :: "string list" where
  "object_prototype_keys =
     [''constructor'', ''__defineGetter__'', ''__defineSetter__'', ''hasOwnProperty'',
      ''__lookupGetter__'', ''__lookupSetter__'', ''isPrototypeOf'', ''propertyIsEnumerable'',
      ''toString'', ''valueOf'', ''__proto__'', ''toLocaleString'']"

datatype cached = Digest buffer | Inherited

definition get_cached :: "(string \<rightharpoonup> buffer) \<Rightarrow> string \<Rightarrow> cached option" where
  "get_cached cachedHashes k =
     (case cachedHashes k of
        Some b \<Rightarrow> Some (Digest b)
      | None \<Rightarrow> if k \<in> set object_prototype_keys then Some Inherited else None)"

text \<open>
  \<^verbatim>\<open>hash(stringToHash)\<close>: the md5 digest is computed and stored when the read gives
  \<^verbatim>\<open>undefined\<close>; the function returns what the read gives afterwards. \<open>md5\<close> stands
  for \<^verbatim>\<open>crypto.createHash('md5').update(s).digest()\<close>.
\<close>

definition hash :: "(string \<Rightarrow> buffer) \<Rightarrow> (string \<rightharpoonup> buffer) \<Rightarrow> string
    \<Rightarrow> cached \<times> (string \<rightharpoonup> buffer)" where
  "hash md5 cachedHashes stringToHash =
     (case get_cached cachedHashes stringToHash of
        None \<Rightarrow> (Digest (md5 stringToHash), cachedHashes(stringToHash \<mapsto> md5 stringToHash))
      | Some v \<Rightarrow> (v, cachedHashes))"

text \<open>\<^verbatim>\<open>buffer.readInt32LE()\<close>: the first four bytes, little endian, as a signed
  32-bit integer; a shorter buffer is a RangeError.\<close>

fun readInt32LE :: "buffer \<Rightarrow> js_error + int" where
  "readInt32LE (b0 # b1 # b2 # b3 # rest) =
     Inr (sint (word_of_nat (unat b0 + 256 * unat b1 + 65536 * unat b2 + 16777216 * unat b3)
            :: 32 word))"
| "readInt32LE short = Inl (RangeError ''Attempt to access memory outside buffer bounds'')"

text \<open>JavaScript's \<^verbatim>\<open>%\<close> on integers: the result has the sign of the dividend.\<close>

definition js_rem :: "int \<Rightarrow> int \<Rightarrow> int" where
  "js_rem a n = sgn a * (\<bar>a\<bar> mod \<bar>n\<bar>)"

text \<open>\<^verbatim>\<open>Math.floor(Math.random() * partitionCount)\<close>, for the value \<open>random\<close> that
  \<^verbatim>\<open>Math.random()\<close> returned.\<close>

definition randomPartition :: "real \<Rightarrow> int \<Rightarrow> int" where
  "randomPartition random partitionCount = \<lfloor>random * of_int partitionCount\<rfloor>"

text \<open>
  \<^verbatim>\<open>computeStreamPartition(partitionCount, partitionKey)\<close>. The partition count is an
  integer or missing (\<open>None\<close>: \<^verbatim>\<open>undefined\<close> or \<^verbatim>\<open>null\<close>); the key is a string or
  missing, and the empty string is falsey. The result comes with the cache as the call
  leaves it.
\<close>

fun computeStreamPartition :: "(string \<Rightarrow> buffer) \<Rightarrow> real \<Rightarrow> (string \<rightharpoonup> buffer)
    \<Rightarrow> int option \<Rightarrow> string option \<Rightarrow> (js_error + int) \<times> (string \<rightharpoonup> buffer)" where
  "computeStreamPartition md5 random cachedHashes None partitionKey =
     (Inl (Error ''partitionCount is falsey!''), cachedHashes)"
| "computeStreamPartition md5 random cachedHashes (Some partitionCount) partitionKey =
     (if partitionCount = 0 then (Inl (Error ''partitionCount is falsey!''), cachedHashes)
      else if partitionCount = 1 then (Inr 0, cachedHashes)
      else (case partitionKey of
              None \<Rightarrow> (Inr (randomPartition random partitionCount), cachedHashes)
            | Some k \<Rightarrow>
                if k = [] then (Inr (randomPartition random partitionCount), cachedHashes)
                else (case hash md5 cachedHashes k of
                        (Inherited, c) \<Rightarrow>
                          (Inl (TypeError ''buffer.readInt32LE is not a function''), c)
                      | (Digest buffer, c) \<Rightarrow>
                          (case readInt32LE buffer of
                             Inl e \<Rightarrow> (Inl e, c)
                           | Inr intHash \<Rightarrow> (Inr (js_rem \<bar>intHash\<bar> partitionCount), c)))))"

section \<open>Stream messages and the Signer\<close>

type_synonym MessageRef = "int \<times> int"

record MessageID =
  streamId :: string
  streamPartition :: nat
  timestamp :: int
  sequenceNumber :: int
  publisherId :: string
  msgChainId :: string

text \<open>\<^verbatim>\<open>StreamMessage.SIGNATURE_TYPES\<close>: NONE, ETH_LEGACY, ETH.\<close>

datatype signature_type = SIG_NONE | SIG_ETH_LEGACY | SIG_ETH

record StreamMessage =
  messageId :: MessageID
  prevMsgRef :: "MessageRef option"
  content :: string
  contentType :: nat
  encryptionType :: nat
  signatureType :: signature_type
  signature :: "string option"

text \<open>
  \<^verbatim>\<open>Signer.signData(data, signatureType)\<close>. \<open>sign\<close> stands for the signing function the
  constructor chose (\<^verbatim>\<open>SigningUtil.sign(d, key)\<close> or the web3 signer).
\<close>

definition signData :: "(string \<Rightarrow> string) \<Rightarrow> string \<Rightarrow> signature_type \<Rightarrow> js_error + string" where
  "signData sign d sigType =
     (if sigType = SIG_ETH_LEGACY \<or> sigType = SIG_ETH then Inr (sign d)
      else Inl (Error ''Unrecognized signature type''))"

text \<open>
  \<^verbatim>\<open>Signer.signStreamMessage(streamMessage, signatureType)\<close> assigns to the fields of
  the message it is handed, so the model returns the message as the call leaves it
  beside the outcome; the two assignments before \<^verbatim>\<open>signData\<close> stay when
  \<^verbatim>\<open>signData\<close> throws. \<open>address\<close> is \<^verbatim>\<open>this.address\<close>, \<open>getPayloadToSign\<close> the
  protocol library's method of that name. A timestamp of 0 is falsey.
\<close>

definition signStreamMessage :: "string \<Rightarrow> (string \<Rightarrow> string) \<Rightarrow> (StreamMessage \<Rightarrow> string)
    \<Rightarrow> StreamMessage \<Rightarrow> signature_type \<Rightarrow> (js_error + unit) \<times> StreamMessage" where
  "signStreamMessage address sign getPayloadToSign streamMessage sigType =
     (if timestamp (messageId streamMessage) = 0
      then (Inl (Error ''Timestamp is required as part of the data to sign.''), streamMessage)
      else
        let m1 = streamMessage\<lparr>signatureType := sigType\<rparr>;
            m2 = m1\<lparr>messageId := (messageId m1)\<lparr>publisherId := address\<rparr>\<rparr>
        in case signData sign (getPayloadToSign m2) sigType of
             Inl e \<Rightarrow> (Inl e, m2)
           | Inr sig \<Rightarrow> (Inr (), m2\<lparr>signature := Some sig\<rparr>))"

text \<open>A message as the Signer test builds it, a signing function and a payload function
  to run the Signer on.\<close>

definition unsigned_message :: StreamMessage where
  "unsigned_message =
     \<lparr>messageId = \<lparr>streamId = ''streamId'', streamPartition = 0, timestamp = 1529549961116,
          sequenceNumber = 0, publisherId = ''publisher'', msgChainId = ''chain-id''\<rparr>,
      prevMsgRef = None, content = ''{}'', contentType = 27, encryptionType = 0,
      signatureType = SIG_NONE, signature = None\<rparr>"

definition constant_sign :: "string \<Rightarrow> string" where
  "constant_sign d = ''0x62b3''"

definition id_payload :: "StreamMessage \<Rightarrow> string" where
  "id_payload m = streamId (messageId m) @ publisherId (messageId m) @ content m"

section \<open>Options, requests and control messages\<close>

text \<open>
  The value of a \<^verbatim>\<open>streamPartition\<close> property: a number, \<^verbatim>\<open>null\<close> or
  \<^verbatim>\<open>undefined\<close>. The program treats the three differently: a destructuring default
  \<^verbatim>\<open>streamPartition = 0\<close> replaces \<^verbatim>\<open>undefined\<close> and nothing else, and an object
  spread copies the property whatever its value is.
\<close>

datatype partition = Partition nat | Partition_null | Partition_undefined

text \<open>
  What a caller may pass as \<^verbatim>\<open>optionsOrStreamId\<close>. An options object is an object
  literal with the properties the program reads; a property the object does not have is
  \<open>None\<close>. The stream id, when the object has one, is a string.
\<close>

record options =
  o_streamId :: "string option"
  o_streamPartition :: "partition option"
  o_requestId :: "nat option"
  o_last :: "int option"
  o_from :: "MessageRef option"
  o_to :: "MessageRef option"
  o_publisherId :: "string option"
  o_msgChainId :: "string option"

datatype js_value = JUndefined | JNull | JBool bool | JNumber int | JString string | JObject options

fun falsy :: "js_value \<Rightarrow> bool" where
  "falsy JUndefined = True"
| "falsy JNull = True"
| "falsy (JBool b) = (\<not> b)"
| "falsy (JNumber n) = (n = 0)"
| "falsy (JString s) = (s = [])"
| "falsy (JObject obj) = False"

definition no_options :: options where
  "no_options = \<lparr>o_streamId = None, o_streamPartition = None, o_requestId = None,
     o_last = None, o_from = None, o_to = None, o_publisherId = None, o_msgChainId = None\<rparr>"

text \<open>How a template literal \<^verbatim>\<open>`${x}`\<close> writes a value: a number in decimal digits, an
  object literal as \<^verbatim>\<open>[object Object]\<close>.\<close>

fun digits :: "nat \<Rightarrow> string" where
  "digits n =
     (if n < 10 then [''0123456789'' ! n] else digits (n div 10) @ [''0123456789'' ! (n mod 10)])"

declare digits.simps [simp del]

fun template :: "js_value \<Rightarrow> string" where
  "template JUndefined = ''undefined''"
| "template JNull = ''null''"
| "template (JBool b) = (if b then ''true'' else ''false'')"
| "template (JNumber n) = (if n < 0 then CHR ''-'' # digits (nat (- n)) else digits (nat n))"
| "template (JString s) = s"
| "template (JObject obj) = ''[object Object]''"

fun template_partition :: "partition \<Rightarrow> string" where
  "template_partition (Partition n) = digits n"
| "template_partition Partition_null = ''null''"
| "template_partition Partition_undefined = ''undefined''"

text \<open>
  \<^verbatim>\<open>validateOptions(optionsOrStreamId)\<close>. In the spread
  \<^verbatim>\<open>{streamPartition: 0, ...optionsOrStreamId}\<close> a \<^verbatim>\<open>streamPartition\<close> that the
  caller's object has replaces the 0, also when it is \<^verbatim>\<open>null\<close> or \<^verbatim>\<open>undefined\<close>.
  A stream id that is missing or empty is falsey.
\<close>

definition validateOptions :: "js_value \<Rightarrow> js_error + options" where
  "validateOptions optionsOrStreamId =
     (if falsy optionsOrStreamId then Inl (Error ''options is required!'')
      else
        case (case optionsOrStreamId of
                JString s \<Rightarrow>
                  Inr (no_options\<lparr>o_streamId := Some s, o_streamPartition := Some (Partition 0)\<rparr>)
              | JObject obj \<Rightarrow>
                  Inr (case o_streamPartition obj of
                         None \<Rightarrow> obj\<lparr>o_streamPartition := Some (Partition 0)\<rparr>
                       | Some p \<Rightarrow> obj)
              | other \<Rightarrow>
                  Inl (Error (''options must be an object! Given: '' @ template optionsOrStreamId))) of
          Inl e \<Rightarrow> Inl e
        | Inr opts \<Rightarrow>
            if o_streamId opts = None \<or> o_streamId opts = Some []
            then Inl (Error (''streamId must be set, given: '' @ template optionsOrStreamId))
            else Inr opts)"

text \<open>The destructuring \<^verbatim>\<open>{ streamId, streamPartition = 0 }\<close> of options: the default
  stands in for a partition that is missing or \<^verbatim>\<open>undefined\<close>.\<close>

definition opt_streamId :: "options \<Rightarrow> string" where
  "opt_streamId opts = (case o_streamId opts of None \<Rightarrow> [] | Some s \<Rightarrow> s)"

definition opt_streamPartition :: "options \<Rightarrow> partition" where
  "opt_streamPartition opts =
     (case o_streamPartition opts of
        None \<Rightarrow> Partition 0
      | Some Partition_undefined \<Rightarrow> Partition 0
      | Some p \<Rightarrow> p)"

text \<open>The control layer's requests, with the values the program hands to their
  constructors. Request ids are the values of the \<^verbatim>\<open>uuid\<close> counter.\<close>

datatype request =
    SubscribeRequest string partition string nat
      \<comment> \<open>streamId, streamPartition, sessionToken, requestId\<close>
  | UnsubscribeRequest string partition string nat
  | ResendLastRequest string partition nat int string
      \<comment> \<open>streamId, streamPartition, requestId, numberLast, sessionToken\<close>
  | ResendFromRequest string partition nat MessageRef "string option" "string option" string
      \<comment> \<open>streamId, streamPartition, requestId, fromMsgRef, publisherId, msgChainId, sessionToken\<close>
  | ResendRangeRequest string partition nat MessageRef MessageRef "string option" "string option" string
      \<comment> \<open>the same with toMsgRef after fromMsgRef\<close>

text \<open>
  The part of \<^verbatim>\<open>resend(client, {requestId, streamId, streamPartition = 0, ...options})\<close>
  that builds the request: \<^verbatim>\<open>options.last > 0\<close> first, then \<^verbatim>\<open>from\<close> without
  \<^verbatim>\<open>to\<close>, then \<^verbatim>\<open>from\<close> with \<^verbatim>\<open>to\<close>; no request is an Error. \<open>fresh\<close> is the
  value \<^verbatim>\<open>uuid('rs')\<close> gives when the caller set no request id. The stream id is read
  as it is; \<open>validateOptions\<close> has made sure it is set.
\<close>

definition resend_request :: "string \<Rightarrow> nat \<Rightarrow> options \<Rightarrow> js_error + request" where
  "resend_request sessionToken fresh opts =
     (let requestId = (case o_requestId opts of None \<Rightarrow> fresh | Some r \<Rightarrow> r);
          sid = opt_streamId opts;
          part = opt_streamPartition opts;
          from_to =
            (case o_from opts of
               None \<Rightarrow> Inl (Error ''Can't _requestResend without resend options'')
             | Some fr \<Rightarrow>
                 (case o_to opts of
                    None \<Rightarrow>
                      Inr (ResendFromRequest sid part requestId fr
                             (o_publisherId opts) (o_msgChainId opts) sessionToken)
                  | Some tr \<Rightarrow>
                      Inr (ResendRangeRequest sid part requestId fr tr
                             (o_publisherId opts) (o_msgChainId opts) sessionToken)))
      in case o_last opts of
           None \<Rightarrow> from_to
         | Some n \<Rightarrow>
             if 0 < n then Inr (ResendLastRequest sid part requestId n sessionToken)
             else from_to)"

section \<open>The connection as an event emitter, and waitForResponse\<close>

text \<open>\<^verbatim>\<open>ControlMessage.TYPES\<close>, the types of the control layer's messages.\<close>

datatype msg_type =
    TYPES_BroadcastMessage | TYPES_UnicastMessage
  | TYPES_SubscribeResponse | TYPES_UnsubscribeResponse
  | TYPES_ResendResponseResending | TYPES_ResendResponseResent | TYPES_ResendResponseNoResend
  | TYPES_ErrorResponse | TYPES_PublishRequest
  | TYPES_SubscribeRequest | TYPES_UnsubscribeRequest
  | TYPES_ResendLastRequest | TYPES_ResendFromRequest | TYPES_ResendRangeRequest

fun request_type :: "request \<Rightarrow> msg_type" where
  "request_type (SubscribeRequest sid part tok rid) = TYPES_SubscribeRequest"
| "request_type (UnsubscribeRequest sid part tok rid) = TYPES_UnsubscribeRequest"
| "request_type (ResendLastRequest sid part rid n tok) = TYPES_ResendLastRequest"
| "request_type (ResendFromRequest sid part rid fr pub chain tok) = TYPES_ResendFromRequest"
| "request_type (ResendRangeRequest sid part rid fr tr pub chain tok) = TYPES_ResendRangeRequest"

fun request_id :: "request \<Rightarrow> nat" where
  "request_id (SubscribeRequest sid part tok rid) = rid"
| "request_id (UnsubscribeRequest sid part tok rid) = rid"
| "request_id (ResendLastRequest sid part rid n tok) = rid"
| "request_id (ResendFromRequest sid part rid fr pub chain tok) = rid"
| "request_id (ResendRangeRequest sid part rid fr tr pub chain tok) = rid"

text \<open>An inbound control message, with the properties the program reads. A message
  without a request id has \<open>None\<close> there.\<close>

record control_message =
  res_type :: msg_type
  res_requestId :: "nat option"
  res_errorMessage :: string
  res_errorCode :: string
  res_streamMessage :: "StreamMessage option"

text \<open>
  The promise \<open>waitForResponse\<close> returns: pending, resolved with the response, or
  rejected with \<^verbatim>\<open>new Error(res.errorMessage)\<close> whose \<^verbatim>\<open>code\<close> is
  \<^verbatim>\<open>res.errorCode\<close>. A promise settles once: \<^verbatim>\<open>resolve\<close> and \<^verbatim>\<open>reject\<close> on a
  settled promise do nothing.
\<close>

datatype outcome = Pending | Resolved control_message | Rejected string string

record waiter =
  w_requestId :: nat
  w_types :: "msg_type list"
  w_promise :: outcome

text \<open>The two closures of a call of \<open>waitForResponse\<close>, named by the number of the call.\<close>

datatype handler = OnResponse nat | OnErrorResponse nat

fun handler_waiter :: "handler \<Rightarrow> nat" where
  "handler_waiter (OnResponse w) = w"
| "handler_waiter (OnErrorResponse w) = w"

text \<open>The events of the connection: one per message type, and the connection's own.\<close>

datatype event = Message msg_type | Connected | Disconnected | ErrorEvent

record connection =
  listeners :: "(event \<times> handler) list"
  waiters :: "waiter list"

definition new_connection :: connection where
  "new_connection = \<lparr>listeners = [], waiters = []\<rparr>"

definition on :: "event \<Rightarrow> handler \<Rightarrow> connection \<Rightarrow> connection" where
  "on e h c = c\<lparr>listeners := listeners c @ [(e, h)]\<rparr>"

definition off :: "event \<Rightarrow> handler \<Rightarrow> connection \<Rightarrow> connection" where
  "off e h c = c\<lparr>listeners := removeAll (e, h) (listeners c)\<rparr>"

definition settle :: "nat \<Rightarrow> outcome \<Rightarrow> connection \<Rightarrow> connection" where
  "settle w out c =
     (if w < length (waiters c) \<and> w_promise (waiters c ! w) = Pending
      then c\<lparr>waiters := (waiters c)[w := (waiters c ! w)\<lparr>w_promise := out\<rparr>]\<rparr>
      else c)"

text \<open>\<^verbatim>\<open>cleanup\<close> of call \<open>w\<close>: \<^verbatim>\<open>off\<close> for each of its types, then for ErrorResponse.\<close>

definition cleanup :: "nat \<Rightarrow> connection \<Rightarrow> connection" where
  "cleanup w c =
     (if w < length (waiters c)
      then off (Message TYPES_ErrorResponse) (OnErrorResponse w)
             (fold (\<lambda>t. off (Message t) (OnResponse w)) (w_types (waiters c ! w)) c)
      else c)"

text \<open>
  A listener is called with the emitted argument. \<^verbatim>\<open>onResponse\<close> and
  \<^verbatim>\<open>onErrorResponse\<close> return at once when the request id is another; otherwise they
  clean up and settle the promise. Called without an argument they settle nothing.
\<close>

fun call_handler :: "handler \<Rightarrow> control_message option \<Rightarrow> connection \<Rightarrow> connection" where
  "call_handler h None c = c"
| "call_handler (OnResponse w) (Some res) c =
     (if w < length (waiters c) \<and> res_requestId res = Some (w_requestId (waiters c ! w))
      then settle w (Resolved res) (cleanup w c)
      else c)"
| "call_handler (OnErrorResponse w) (Some res) c =
     (if w < length (waiters c) \<and> res_requestId res = Some (w_requestId (waiters c ! w))
      then settle w (Rejected (res_errorMessage res) (res_errorCode res)) (cleanup w c)
      else c)"

text \<open>\<^verbatim>\<open>emit\<close> calls the listeners that are registered for the event when it starts, in
  the order of their registration.\<close>

definition emit :: "event \<Rightarrow> control_message option \<Rightarrow> connection \<Rightarrow> connection" where
  "emit e arg c =
     fold (\<lambda>h. call_handler h arg) (map snd (filter (\<lambda>l. fst l = e) (listeners c))) c"

definition emitMessage :: "control_message \<Rightarrow> connection \<Rightarrow> connection" where
  "emitMessage res c = emit (Message (res_type res)) (Some res) c"

definition emitMessages :: "control_message list \<Rightarrow> connection \<Rightarrow> connection" where
  "emitMessages msgs c = fold emitMessage msgs c"

text \<open>\<^verbatim>\<open>waitForResponse({connection, types, requestId})\<close>: the number of the new promise
  and the connection with its handlers registered.\<close>

definition waitForResponse :: "msg_type list \<Rightarrow> nat \<Rightarrow> connection \<Rightarrow> nat \<times> connection" where
  "waitForResponse types requestId c =
     (let w = length (waiters c);
          c1 = c\<lparr>waiters := waiters c @ [\<lparr>w_requestId = requestId, w_types = types, w_promise = Pending\<rparr>]\<rparr>;
          c2 = fold (\<lambda>t. on (Message t) (OnResponse w)) types c1
      in (w, on (Message TYPES_ErrorResponse) (OnErrorResponse w) c2))"

definition ResendResponses :: "msg_type list" where
  "ResendResponses = [TYPES_ResendResponseResending, TYPES_ResendResponseNoResend]"

definition PAIRS :: "(msg_type \<times> msg_type list) list" where
  "PAIRS =
     [(TYPES_SubscribeRequest, [TYPES_SubscribeResponse]),
      (TYPES_UnsubscribeRequest, [TYPES_UnsubscribeResponse]),
      (TYPES_ResendLastRequest, ResendResponses),
      (TYPES_ResendFromRequest, ResendResponses),
      (TYPES_ResendRangeRequest, ResendResponses)]"

text \<open>\<^verbatim>\<open>waitForRequestResponse(client, request)\<close>; \<^verbatim>\<open>PAIRS.get\<close> of a type that is not
  a key is \<^verbatim>\<open>undefined\<close>, and \<^verbatim>\<open>types.forEach\<close> then throws.\<close>

definition waitForRequestResponse :: "request \<Rightarrow> connection \<Rightarrow> js_error + nat \<times> connection" where
  "waitForRequestResponse request c =
     (case map_of PAIRS (request_type request) of
        None \<Rightarrow> Inl (TypeError ''Cannot read property 'forEach' of undefined'')
      | Some types \<Rightarrow> Inr (waitForResponse types (request_id request) c))"

text \<open>The first inbound message a waiter is waiting for: one with its request id, of one
  of its types or an ErrorResponse.\<close>

definition awaited :: "msg_type list \<Rightarrow> nat \<Rightarrow> control_message \<Rightarrow> bool" where
  "awaited types requestId res \<longleftrightarrow>
     res_requestId res = Some requestId
     \<and> (res_type res \<in> set types \<or> res_type res = TYPES_ErrorResponse)"

definition waiter_listeners :: "nat \<Rightarrow> connection \<Rightarrow> (event \<times> handler) list" where
  "waiter_listeners w c = filter (\<lambda>l. handler_waiter (snd l) = w) (listeners c)"

text \<open>The listeners of a connection belong to calls of \<open>waitForResponse\<close> that were made.\<close>

definition known_handlers :: "connection \<Rightarrow> bool" where
  "known_handlers c \<longleftrightarrow> list_all (\<lambda>l. handler_waiter (snd l) < length (waiters c)) (listeners c)"

text \<open>
  What a call of \<open>waitForResponse\<close> registers, in the order of registration, and the two
  states of a call: \<open>waiting\<close>, with the promise pending and exactly these listeners on the
  connection, and \<open>settled\<close>, with the promise resolved or rejected and none of them left.
\<close>

definition registered :: "nat \<Rightarrow> msg_type list \<Rightarrow> (event \<times> handler) list" where
  "registered w types =
     map (\<lambda>t. (Message t, OnResponse w)) types @ [(Message TYPES_ErrorResponse, OnErrorResponse w)]"

definition waiting :: "nat \<Rightarrow> nat \<Rightarrow> msg_type list \<Rightarrow> connection \<Rightarrow> bool" where
  "waiting w requestId types c \<longleftrightarrow>
     w < length (waiters c)
     \<and> waiters c ! w = \<lparr>w_requestId = requestId, w_types = types, w_promise = Pending\<rparr>
     \<and> waiter_listeners w c = registered w types"

definition settled :: "nat \<Rightarrow> nat \<Rightarrow> msg_type list \<Rightarrow> outcome \<Rightarrow> connection \<Rightarrow> bool" where
  "settled w requestId types out c \<longleftrightarrow>
     w < length (waiters c)
     \<and> waiters c ! w = \<lparr>w_requestId = requestId, w_types = types, w_promise = out\<rparr>
     \<and> out \<noteq> Pending
     \<and> waiter_listeners w c = []"

text \<open>A response of a given type to a given request.\<close>

definition response :: "msg_type \<Rightarrow> nat \<Rightarrow> control_message" where
  "response ty requestId =
     \<lparr>res_type = ty, res_requestId = Some requestId, res_errorMessage = [],
      res_errorCode = [], res_streamMessage = None\<rparr>"

section \<open>Subscription and Subscriptions\<close>

text \<open>
  The client as the functions of this part use it: its connection, the requests handed to
  \<^verbatim>\<open>client.send\<close> in order, the session token, and the counter behind \<^verbatim>\<open>uuid\<close>,
  whose next value is the next request id. The client is connected and has a session:
  \<^verbatim>\<open>client.session.getSessionToken()\<close> resolves to the session token and
  \<^verbatim>\<open>client.send(request)\<close> resolves when the request is handed over.
\<close>

record client =
  connection :: connection
  sent :: "request list"
  sessionToken :: string
  uuid_count :: nat

definition new_client :: "string \<Rightarrow> nat \<Rightarrow> client" where
  "new_client token count =
     \<lparr>connection = new_connection, sent = [], sessionToken = token, uuid_count = count\<rparr>"

text \<open>
  The tail that \<^verbatim>\<open>subscribe\<close>, \<^verbatim>\<open>unsubscribe\<close> and \<^verbatim>\<open>resend\<close> share:
  \<^verbatim>\<open>const onResponse = waitForRequestResponse(client, request); await client.send(request);
  return onResponse\<close>. The result is the promise of the waiter.
\<close>

definition send_request :: "request \<Rightarrow> client \<Rightarrow> js_error + nat \<times> client" where
  "send_request request cl =
     (case waitForRequestResponse request (connection cl) of
        Inl e \<Rightarrow> Inl e
      | Inr (p, c) \<Rightarrow> Inr (p, cl\<lparr>connection := c, sent := sent cl @ [request]\<rparr>))"

definition subscribe :: "options \<Rightarrow> client \<Rightarrow> js_error + nat \<times> client" where
  "subscribe opts cl =
     send_request
       (SubscribeRequest (opt_streamId opts) (opt_streamPartition opts) (sessionToken cl) (uuid_count cl))
       (cl\<lparr>uuid_count := uuid_count cl + 1\<rparr>)"

definition unsubscribe :: "options \<Rightarrow> client \<Rightarrow> js_error + nat \<times> client" where
  "unsubscribe opts cl =
     send_request
       (UnsubscribeRequest (opt_streamId opts) (opt_streamPartition opts) (sessionToken cl) (uuid_count cl))
       (cl\<lparr>uuid_count := uuid_count cl + 1\<rparr>)"

text \<open>\<^verbatim>\<open>SubKey({ streamId, streamPartition = 0 })\<close> joins stream id and partition with a
  bar. The partition is written as a number or as \<^verbatim>\<open>null\<close>, without a bar, so the
  string determines both, and the model keeps the pair.\<close>

type_synonym key = "string \<times> partition"

definition SubKey :: "options \<Rightarrow> js_error + key" where
  "SubKey opts =
     (case o_streamId opts of
        None \<Rightarrow>
          Inl (Error (''SubKey: invalid streamId: undefined ''
                 @ template_partition (opt_streamPartition opts)))
      | Some s \<Rightarrow> Inr (s, opt_streamPartition opts))"

text \<open>
  A Subscription. \<^verbatim>\<open>pMemoize\<close> keeps the promise of the first call of
  \<^verbatim>\<open>sendSubscribe\<close> (of \<^verbatim>\<open>sendUnsubscribe\<close>) until \<^verbatim>\<open>pMemoize.clear\<close> or until the
  promise rejects; \<^verbatim>\<open>pLimit(1)\<close> runs the bodies of \<^verbatim>\<open>subscribe\<close> and
  \<^verbatim>\<open>unsubscribe\<close> one at a time, in the order of the calls. \<open>active\<close> is the body that
  runs, with the promise it awaits; \<open>pending\<close> are the bodies that wait for their turn;
  \<open>streams\<close> is \<^verbatim>\<open>this.streams.size\<close>, one iterator more with every \<^verbatim>\<open>subscribe\<close> that
  returns; \<open>rejected\<close> counts the calls that threw.
\<close>

datatype task = Subscribe | Unsubscribe

record subscription =
  s_options :: options
  sendSubscribe_cache :: "nat option"
  sendUnsubscribe_cache :: "nat option"
  active :: "(task \<times> nat) option"
  pending :: "task list"
  streams :: nat
  rejected :: nat

definition new_Subscription :: "options \<Rightarrow> subscription" where
  "new_Subscription opts =
     \<lparr>s_options = opts, sendSubscribe_cache = None, sendUnsubscribe_cache = None,
      active = None, pending = [], streams = 0, rejected = 0\<rparr>"

definition sendSubscribe :: "subscription \<times> client \<Rightarrow> (js_error + nat) \<times> subscription \<times> client" where
  "sendSubscribe sc =
     (case sc of (sub, cl) \<Rightarrow>
        case sendSubscribe_cache sub of
          Some p \<Rightarrow> (Inr p, sub, cl)
        | None \<Rightarrow>
            (case subscribe (s_options sub) cl of
               Inl e \<Rightarrow> (Inl e, sub, cl)
             | Inr (p, cl') \<Rightarrow> (Inr p, sub\<lparr>sendSubscribe_cache := Some p\<rparr>, cl')))"

definition sendUnsubscribe :: "subscription \<times> client \<Rightarrow> (js_error + nat) \<times> subscription \<times> client" where
  "sendUnsubscribe sc =
     (case sc of (sub, cl) \<Rightarrow>
        case sendUnsubscribe_cache sub of
          Some p \<Rightarrow> (Inr p, sub, cl)
        | None \<Rightarrow>
            (case unsubscribe (s_options sub) cl of
               Inl e \<Rightarrow> (Inl e, sub, cl)
             | Inr (p, cl') \<Rightarrow> (Inr p, sub\<lparr>sendUnsubscribe_cache := Some p\<rparr>, cl')))"

text \<open>The bodies up to their \<^verbatim>\<open>await\<close>: \<^verbatim>\<open>pMemoize.clear\<close> of the other function,
  then the memoized call.\<close>

fun start_task :: "task \<Rightarrow> subscription \<times> client \<Rightarrow> (js_error + nat) \<times> subscription \<times> client" where
  "start_task Subscribe (sub, cl) = sendSubscribe (sub\<lparr>sendUnsubscribe_cache := None\<rparr>, cl)"
| "start_task Unsubscribe (sub, cl) = sendUnsubscribe (sub\<lparr>sendSubscribe_cache := None\<rparr>, cl)"

text \<open>After the \<^verbatim>\<open>await\<close>: \<^verbatim>\<open>subscribe\<close> returns \<^verbatim>\<open>this.iterate()\<close>, which adds an
  iterator to \<^verbatim>\<open>this.streams\<close>; \<^verbatim>\<open>unsubscribe\<close> returns.\<close>

fun finish_task :: "task \<Rightarrow> subscription \<Rightarrow> subscription" where
  "finish_task Subscribe sub = sub\<lparr>streams := streams sub + 1\<rparr>"
| "finish_task Unsubscribe sub = sub"

text \<open>When the awaited promise rejects, \<^verbatim>\<open>pMemoize\<close> deletes the entry of the memoized
  function that was called, and the body throws.\<close>

fun fail_task :: "task \<Rightarrow> subscription \<Rightarrow> subscription" where
  "fail_task Subscribe sub = sub\<lparr>sendSubscribe_cache := None, rejected := rejected sub + 1\<rparr>"
| "fail_task Unsubscribe sub = sub\<lparr>sendUnsubscribe_cache := None, rejected := rejected sub + 1\<rparr>"

definition promise_of :: "client \<Rightarrow> nat \<Rightarrow> outcome" where
  "promise_of cl p =
     (if p < length (waiters (connection cl)) then w_promise (waiters (connection cl) ! p) else Pending)"

text \<open>The queue runs the waiting bodies in order until one has to wait for its promise.\<close>

fun run_queue :: "task list \<Rightarrow> subscription \<times> client \<Rightarrow> subscription \<times> client" where
  "run_queue [] (sub, cl) = (sub\<lparr>active := None, pending := []\<rparr>, cl)"
| "run_queue (t # ts) (sub, cl) =
     (case start_task t (sub, cl) of
        (Inl e, sub1, cl1) \<Rightarrow> run_queue ts (sub1\<lparr>rejected := rejected sub1 + 1\<rparr>, cl1)
      | (Inr p, sub1, cl1) \<Rightarrow>
          (case promise_of cl1 p of
             Pending \<Rightarrow> (sub1\<lparr>active := Some (t, p), pending := ts\<rparr>, cl1)
           | Resolved res \<Rightarrow> run_queue ts (finish_task t sub1, cl1)
           | Rejected msg code \<Rightarrow> run_queue ts (fail_task t sub1, cl1)))"

text \<open>The queue goes on when the promise of the running body has settled.\<close>

definition resume :: "subscription \<times> client \<Rightarrow> subscription \<times> client" where
  "resume sc =
     (case sc of (sub, cl) \<Rightarrow>
        case active sub of
          None \<Rightarrow> run_queue (pending sub) (sub, cl)
        | Some (t, p) \<Rightarrow>
            (case promise_of cl p of
               Pending \<Rightarrow> (sub, cl)
             | Resolved res \<Rightarrow> run_queue (pending sub) (finish_task t sub, cl)
             | Rejected msg code \<Rightarrow> run_queue (pending sub) (fail_task t sub, cl)))"

text \<open>\<^verbatim>\<open>this.subscribe = () => this.queue(sub)\<close> and
  \<^verbatim>\<open>this.unsubscribe = () => this.queue(unsub)\<close>.\<close>

definition enqueue :: "task \<Rightarrow> subscription \<times> client \<Rightarrow> subscription \<times> client" where
  "enqueue t sc = (case sc of (sub, cl) \<Rightarrow> resume (sub\<lparr>pending := pending sub @ [t]\<rparr>, cl))"

text \<open>
  \<^verbatim>\<open>Subscriptions\<close>: the map from keys to Subscriptions, beside the client.
  \<^verbatim>\<open>Subscriptions.subscribe(options)\<close> takes the Subscription of the key, or makes one,
  and calls its \<^verbatim>\<open>subscribe\<close>.
\<close>

type_synonym subscriptions = "(key \<times> subscription) list"

definition Subscriptions_subscribe :: "js_value \<Rightarrow> client \<times> subscriptions
    \<Rightarrow> (js_error + unit) \<times> client \<times> subscriptions" where
  "Subscriptions_subscribe v st =
     (case st of (cl, subs) \<Rightarrow>
        case validateOptions v of
          Inl e \<Rightarrow> (Inl e, st)
        | Inr opts \<Rightarrow>
            (case SubKey opts of
               Inl e \<Rightarrow> (Inl e, st)
             | Inr k \<Rightarrow>
                 let sub = (case map_of subs k of Some s \<Rightarrow> s | None \<Rightarrow> new_Subscription opts);
                     (sub', cl') = enqueue Subscribe (sub, cl)
                 in (Inr (), cl', AList.update k sub' subs)))"

text \<open>A call of the \<^verbatim>\<open>unsubscribe\<close> of the Subscription of a key, if there is one.\<close>

definition Subscription_unsubscribe :: "key \<Rightarrow> client \<times> subscriptions \<Rightarrow> client \<times> subscriptions" where
  "Subscription_unsubscribe k st =
     (case st of (cl, subs) \<Rightarrow>
        case map_of subs k of
          None \<Rightarrow> st
        | Some sub \<Rightarrow>
            let (sub', cl') = enqueue Unsubscribe (sub, cl)
            in (cl', AList.update k sub' subs))"

text \<open>An inbound message is emitted on the connection; then every Subscription whose
  running body awaited a promise that has settled goes on.\<close>

fun resume_all :: "subscriptions \<Rightarrow> client \<Rightarrow> client \<times> subscriptions" where
  "resume_all [] cl = (cl, [])"
| "resume_all ((k, sub) # subs) cl =
     (case resume (sub, cl) of
        (sub', cl') \<Rightarrow> (case resume_all subs cl' of (cl'', subs') \<Rightarrow> (cl'', (k, sub') # subs')))"

definition receive :: "control_message \<Rightarrow> client \<times> subscriptions \<Rightarrow> client \<times> subscriptions" where
  "receive res st =
     (case st of (cl, subs) \<Rightarrow>
        resume_all subs (cl\<lparr>connection := emitMessage res (connection cl)\<rparr>))"

text \<open>What happens to a client, one thing after the other.\<close>

datatype action = Call_subscribe js_value | Call_unsubscribe key | Receive control_message

fun step :: "action \<Rightarrow> client \<times> subscriptions \<Rightarrow> client \<times> subscriptions" where
  "step (Call_subscribe v) st = snd (Subscriptions_subscribe v st)"
| "step (Call_unsubscribe k) st = Subscription_unsubscribe k st"
| "step (Receive res) st = receive res st"

definition run :: "action list \<Rightarrow> client \<times> subscriptions \<Rightarrow> client \<times> subscriptions" where
  "run acts st = fold step acts st"

text \<open>
  The actions that concern one key \<open>k\<close>: a call of \<^verbatim>\<open>Subscriptions.subscribe\<close> with
  options that validate and have the key, and an inbound ErrorResponse to the request
  with a given id. \<open>subscribe_calls\<close> counts the former.
\<close>

fun subscribe_to :: "key \<Rightarrow> action \<Rightarrow> bool" where
  "subscribe_to k (Call_subscribe v) =
     (case validateOptions v of Inl e \<Rightarrow> False | Inr opts \<Rightarrow> SubKey opts = Inr k)"
| "subscribe_to k (Call_unsubscribe k') = False"
| "subscribe_to k (Receive res) = False"

fun rejects :: "nat \<Rightarrow> action \<Rightarrow> bool" where
  "rejects requestId (Call_subscribe v) = False"
| "rejects requestId (Call_unsubscribe k) = False"
| "rejects requestId (Receive res) =
     (res_type res = TYPES_ErrorResponse \<and> res_requestId res = Some requestId)"

definition subscribe_calls :: "key \<Rightarrow> action list \<Rightarrow> nat" where
  "subscribe_calls k acts = length (filter (subscribe_to k) acts)"

text \<open>The SubscribeRequests and the UnsubscribeRequests for a key among the requests
  that were sent.\<close>

fun is_SubscribeRequest :: "key \<Rightarrow> request \<Rightarrow> bool" where
  "is_SubscribeRequest k (SubscribeRequest sid part tok rid) = ((sid, part) = k)"
| "is_SubscribeRequest k (UnsubscribeRequest sid part tok rid) = False"
| "is_SubscribeRequest k (ResendLastRequest sid part rid n tok) = False"
| "is_SubscribeRequest k (ResendFromRequest sid part rid fr pub chain tok) = False"
| "is_SubscribeRequest k (ResendRangeRequest sid part rid fr tr pub chain tok) = False"

fun is_UnsubscribeRequest :: "key \<Rightarrow> request \<Rightarrow> bool" where
  "is_UnsubscribeRequest k (SubscribeRequest sid part tok rid) = False"
| "is_UnsubscribeRequest k (UnsubscribeRequest sid part tok rid) = ((sid, part) = k)"
| "is_UnsubscribeRequest k (ResendLastRequest sid part rid n tok) = False"
| "is_UnsubscribeRequest k (ResendFromRequest sid part rid fr pub chain tok) = False"
| "is_UnsubscribeRequest k (ResendRangeRequest sid part rid fr tr pub chain tok) = False"

definition subscribe_requests :: "key \<Rightarrow> request list \<Rightarrow> request list" where
  "subscribe_requests k requests = filter (is_SubscribeRequest k) requests"

definition unsubscribe_requests :: "key \<Rightarrow> request list \<Rightarrow> request list" where
  "unsubscribe_requests k requests = filter (is_UnsubscribeRequest k) requests"

text \<open>
  Conditions on a client and its Subscriptions. \<open>well_formed\<close> holds of a new client and
  of everything it becomes: the session token stays, the listeners on the connection
  belong to waiters, and every Subscription is kept under the key of its options, once.
\<close>

definition key_of :: "options \<Rightarrow> key" where
  "key_of opts = (opt_streamId opts, opt_streamPartition opts)"

definition keyed :: "subscriptions \<Rightarrow> bool" where
  "keyed subs \<longleftrightarrow> list_all (\<lambda>ks. key_of (s_options (snd ks)) = fst ks) subs"

definition well_formed :: "string \<Rightarrow> client \<times> subscriptions \<Rightarrow> bool" where
  "well_formed token st \<longleftrightarrow>
     sessionToken (fst st) = token
   \<and> known_handlers (connection (fst st))
   \<and> distinct (map fst (snd st))
   \<and> keyed (snd st)"

text \<open>
  What the calls for other keys leave as it is for the key \<open>k\<close>: the session token, the
  SubscribeRequests and UnsubscribeRequests sent for \<open>k\<close>, and every waiter, which is
  waiting or settled afterwards as it was before.
\<close>

definition unaffected :: "key \<Rightarrow> client \<Rightarrow> client \<Rightarrow> bool" where
  "unaffected k cl cl' \<longleftrightarrow>
     sessionToken cl' = sessionToken cl
   \<and> subscribe_requests k (sent cl') = subscribe_requests k (sent cl)
   \<and> unsubscribe_requests k (sent cl') = unsubscribe_requests k (sent cl)
   \<and> (known_handlers (connection cl) \<longrightarrow> known_handlers (connection cl'))
   \<and> (\<forall>w requestId types. waiting w requestId types (connection cl)
         \<longrightarrow> waiting w requestId types (connection cl'))
   \<and> (\<forall>w requestId types out. settled w requestId types out (connection cl)
         \<longrightarrow> settled w requestId types out (connection cl'))"

text \<open>
  The states of the key \<open>k\<close>. \<open>no_subscription\<close>: there is no Subscription of \<open>k\<close> and no
  request for \<open>k\<close> was sent. \<open>subscribing\<close>: the one SubscribeRequest for \<open>k\<close>, with the
  request id \<open>requestId\<close>, is sent, its waiter \<open>w\<close> is waiting, the body of the first call
  awaits its promise and \<open>n\<close> later calls wait in the queue. \<open>subscribed\<close>: the waiter is
  resolved and \<open>n\<close> calls have returned their iterators. \<open>unsubscribing\<close> and
  \<open>unsubscribed\<close> are the same for the one UnsubscribeRequest for \<open>k\<close>.
\<close>

definition no_subscription :: "key \<Rightarrow> client \<times> subscriptions \<Rightarrow> bool" where
  "no_subscription k st \<longleftrightarrow>
     map_of (snd st) k = None
   \<and> subscribe_requests k (sent (fst st)) = []
   \<and> unsubscribe_requests k (sent (fst st)) = []"

definition subscribing :: "key \<Rightarrow> nat \<Rightarrow> nat \<Rightarrow> nat \<Rightarrow> client \<times> subscriptions \<Rightarrow> bool" where
  "subscribing k requestId w n st \<longleftrightarrow>
     waiting w requestId [TYPES_SubscribeResponse] (connection (fst st))
   \<and> subscribe_requests k (sent (fst st))
       = [SubscribeRequest (fst k) (snd k) (sessionToken (fst st)) requestId]
   \<and> unsubscribe_requests k (sent (fst st)) = []
   \<and> (\<exists>sub. map_of (snd st) k = Some sub
          \<and> sendSubscribe_cache sub = Some w \<and> sendUnsubscribe_cache sub = None
          \<and> active sub = Some (Subscribe, w) \<and> pending sub = replicate n Subscribe
          \<and> streams sub = 0 \<and> rejected sub = 0)"

definition subscribed :: "key \<Rightarrow> nat \<Rightarrow> nat \<Rightarrow> nat \<Rightarrow> client \<times> subscriptions \<Rightarrow> bool" where
  "subscribed k requestId w n st \<longleftrightarrow>
     (\<exists>res. settled w requestId [TYPES_SubscribeResponse] (Resolved res) (connection (fst st)))
   \<and> subscribe_requests k (sent (fst st))
       = [SubscribeRequest (fst k) (snd k) (sessionToken (fst st)) requestId]
   \<and> unsubscribe_requests k (sent (fst st)) = []
   \<and> (\<exists>sub. map_of (snd st) k = Some sub
          \<and> sendSubscribe_cache sub = Some w \<and> sendUnsubscribe_cache sub = None
          \<and> active sub = None \<and> pending sub = []
          \<and> streams sub = n \<and> rejected sub = 0)"



text \<open>
  What happens to the client of the examples below, whose next request id is 5: before
  the first subscribe for the stream \<^verbatim>\<open>s1\<close>, after it, and after the two unsubscribes
  of \<^verbatim>\<open>s1\<close>.
\<close>

definition trace_before :: "action list" where
  "trace_before = [Call_subscribe (JString ''s2''), Receive (response TYPES_ErrorResponse 5)]"

definition trace_after :: "action list" where
  "trace_after =
     [Call_subscribe (JObject (no_options\<lparr>o_streamId := Some ''s1''\<rparr>)),
      Call_subscribe (JString ''s2''),
      Receive (response TYPES_ErrorResponse 7),
      Call_subscribe (JString ''s1'')]"


section \<open>Message streams and Subscriptions.resend\<close>

text \<open>
  \<^verbatim>\<open>messageStream(client, {streamId, streamPartition, type})\<close> opens a queue and
  registers a listener for the type on the connection. The listeners of message streams
  write to the queues of their streams only and the listeners of waiters settle waiters
  only, so the message streams are kept beside the connection: the open streams in the
  order of their opening, each with the messages written to its queue.
\<close>

record message_stream =
  ms_type :: msg_type
  ms_streamId :: string
  ms_streamPartition :: partition
  ms_queue :: "control_message list"

text \<open>\<^verbatim>\<open>getIsMatchingStreamMessage\<close>: stream id and partition of the stream message are
  those of the options; the partition of a stream message is a number. A message without
  a stream message is written nowhere.\<close>

definition isMatchingStreamMessage :: "string \<Rightarrow> partition \<Rightarrow> control_message \<Rightarrow> bool" where
  "isMatchingStreamMessage sid part msg =
     (case res_streamMessage msg of
        None \<Rightarrow> False
      | Some sm \<Rightarrow> sid = streamId (messageId sm) \<and> part = Partition (streamPartition (messageId sm)))"

definition messageStream :: "msg_type \<Rightarrow> options \<Rightarrow> message_stream" where
  "messageStream ty opts =
     \<lparr>ms_type = ty, ms_streamId = opt_streamId opts, ms_streamPartition = opt_streamPartition opts,
      ms_queue = []\<rparr>"

text \<open>The listener \<^verbatim>\<open>onMessage\<close> of a message stream.\<close>

definition onMessage :: "control_message \<Rightarrow> message_stream \<Rightarrow> message_stream" where
  "onMessage msg s =
     (if isMatchingStreamMessage (ms_streamId s) (ms_streamPartition s) msg
      then s\<lparr>ms_queue := ms_queue s @ [msg]\<rparr> else s)"

text \<open>What \<^verbatim>\<open>connection.emit(message.type, message)\<close> does to the message streams.\<close>

definition emit_to_streams :: "control_message \<Rightarrow> message_stream list \<Rightarrow> message_stream list" where
  "emit_to_streams msg ss = map (\<lambda>s. if ms_type s = res_type msg then onMessage msg s else s) ss"

text \<open>
  \<^verbatim>\<open>resend(client, {requestId = uuid('rs'), ...})\<close>: the request as \<open>resend_request\<close>
  builds it, then the tail of \<open>send_request\<close>. The default of the request id takes a value
  of the counter when the caller gave none.
\<close>

definition resend :: "options \<Rightarrow> client \<Rightarrow> js_error + nat \<times> client" where
  "resend opts cl =
     (let cl1 = (if o_requestId opts = None then cl\<lparr>uuid_count := uuid_count cl + 1\<rparr> else cl)
      in case resend_request (sessionToken cl) (uuid_count cl) opts of
           Inl e \<Rightarrow> Inl e
         | Inr request \<Rightarrow> send_request request cl1)"

text \<open>
  \<^verbatim>\<open>Subscriptions.resend(opts)\<close>: a message stream for the UnicastMessages of the stream,
  a request id from \<^verbatim>\<open>uuid\<close>, a waiter for the end of the resend with that request id
  (ResendResponseResent or ResendResponseNoResend), and
  \<^verbatim>\<open>resend(this.client, {requestId, ...options})\<close>, where a request id in the caller's
  options replaces the new one. The result is the new request id, for the iterator over
  the message stream opened last. When \<open>resend\<close> throws, the stream and the waiter stay as
  they are.
\<close>

definition Subscriptions_resend :: "js_value \<Rightarrow> client \<times> message_stream list
    \<Rightarrow> (js_error + nat) \<times> client \<times> message_stream list" where
  "Subscriptions_resend v st =
     (case st of (cl, ss) \<Rightarrow>
        case validateOptions v of
          Inl e \<Rightarrow> (Inl e, st)
        | Inr opts \<Rightarrow>
            let ss1 = ss @ [messageStream TYPES_UnicastMessage opts];
                requestId = uuid_count cl;
                cl1 = cl\<lparr>uuid_count := uuid_count cl + 1\<rparr>;
                (onResendDone, c2) =
                  waitForResponse [TYPES_ResendResponseResent, TYPES_ResendResponseNoResend]
                    requestId (connection cl1);
                cl2 = cl1\<lparr>connection := c2\<rparr>
            in case resend (case o_requestId opts of
                              None \<Rightarrow> opts\<lparr>o_requestId := Some requestId\<rparr>
                            | Some r \<Rightarrow> opts) cl2 of
                 Inl e \<Rightarrow> (Inl e, cl2, ss1)
               | Inr (p, cl3) \<Rightarrow> (Inr requestId, cl3, ss1))"

text \<open>The options of the client test's resend, a UnicastMessage, and the stream message
  of the client test's \<^verbatim>\<open>getStreamMessage\<close>.\<close>

definition resend_last_5 :: js_value where
  "resend_last_5 = JObject (no_options\<lparr>o_streamId := Some ''stream1'', o_last := Some 5\<rparr>)"

definition unicast :: "nat \<Rightarrow> StreamMessage \<Rightarrow> control_message" where
  "unicast requestId sm =
     \<lparr>res_type = TYPES_UnicastMessage, res_requestId = Some requestId, res_errorMessage = [],
      res_errorCode = [], res_streamMessage = Some sm\<rparr>"

definition getStreamMessage :: "string \<Rightarrow> StreamMessage" where
  "getStreamMessage sid =
     \<lparr>messageId = \<lparr>streamId = sid, streamPartition = 0, timestamp = 1529549961116,
          sequenceNumber = 0, publisherId = [], msgChainId = []\<rparr>,
      prevMsgRef = None, content = ''{}'', contentType = 27, encryptionType = 0,
      signatureType = SIG_NONE, signature = Some []\<rparr>"

section \<open>The Subscription state machine of the specification\<close>

text \<open>
  Modelled from the spec: the state of a Subscription and its \<^verbatim>\<open>unsubscribed\<close> event
  (section 4.5). The class that keeps the state and emits the events
  (\<^verbatim>\<open>src/Subscription\<close>, with \<^verbatim>\<open>Subscription.State\<close>) is not among the sources; only
  its tests are. The spec: any state goes to Unsubscribing on a user unsubscribe;
  Unsubscribing goes to Unsubscribed on the UnsubscribeResponse; repeated unsubscribes
  on a Subscription that is unsubscribing or unsubscribed are no-ops; the
  \<^verbatim>\<open>unsubscribed\<close> event is emitted once per transition to Unsubscribed.
\<close>

datatype SubState =
    St_Pending | St_Subscribing | St_Subscribed | St_Resending | St_ResendDone
  | St_Unsubscribing | St_Unsubscribed | St_Error








section \<open>The verification handle of the specification\<close>

text \<open>
  Modelled from the spec: the per-message verification handle (sections 4.2 and 4.7). The
  Dispatcher that makes the handle and passes it to \<^verbatim>\<open>handleBroadcastMessage\<close> and
  \<^verbatim>\<open>handleResentMessage\<close> is not among the sources; only its tests are. A promise is
  named by a number; \<open>verifications\<close> counts the signature verifications started and is the
  name of the next promise; \<open>cached\<close> is the promise the handle returned before.
\<close>

record verification =
  cached :: "nat option"
  verifications :: nat

text \<open>Modelled from the spec: the Dispatcher obtains one handle per delivered message.\<close>

definition new_handle :: "nat \<Rightarrow> verification" where
  "new_handle started = \<lparr>cached = None, verifications = started\<rparr>"

text \<open>Modelled from the spec: repeated calls for the same delivered message return the
  identical result; the first call starts the verification.\<close>

definition verifyFn :: "verification \<Rightarrow> nat \<times> verification" where
  "verifyFn h =
     (case cached h of
        Some promise \<Rightarrow> (promise, h)
      | None \<Rightarrow> (verifications h, h\<lparr>cached := Some (verifications h), verifications := verifications h + 1\<rparr>))"

text \<open>Modelled from the spec: the handle is passed into every Subscription's delivery
  path. A delivery path is taken by the number of times it calls the handle.\<close>

fun call_verifyFn :: "nat \<Rightarrow> verification \<Rightarrow> nat list \<times> verification" where
  "call_verifyFn 0 h = ([], h)"
| "call_verifyFn (Suc n) h =
     (case verifyFn h of (p, h1) \<Rightarrow> (case call_verifyFn n h1 of (ps, h2) \<Rightarrow> (p # ps, h2)))"

fun fan_out :: "nat list \<Rightarrow> verification \<Rightarrow> nat list list \<times> verification" where
  "fan_out [] h = ([], h)"
| "fan_out (calls # rest) h =
     (case call_verifyFn calls h of
        (ps, h1) \<Rightarrow> (case fan_out rest h1 of (pss, h2) \<Rightarrow> (ps # pss, h2)))"

section \<open>The ordering tracker and the gap fill of the specification\<close>

text \<open>
  Modelled from the spec: message references and their order (section 3), and
  \<open>successor\<close> and \<open>predecessor\<close> as section 4.3 defines them: the sequence number one up
  or one down, the timestamp kept.
\<close>

definition successor :: "MessageRef \<Rightarrow> MessageRef" where
  "successor r = (fst r, snd r + 1)"

definition predecessor :: "MessageRef \<Rightarrow> MessageRef" where
  "predecessor r = (fst r, snd r - 1)"

definition ref_less :: "MessageRef \<Rightarrow> MessageRef \<Rightarrow> bool" where
  "ref_less a b \<longleftrightarrow> fst a < fst b \<or> (fst a = fst b \<and> snd a < snd b)"

definition ref_le :: "MessageRef \<Rightarrow> MessageRef \<Rightarrow> bool" where
  "ref_le a b \<longleftrightarrow> ref_less a b \<or> a = b"

definition msg_ref :: "StreamMessage \<Rightarrow> MessageRef" where
  "msg_ref m = (timestamp (messageId m), sequenceNumber (messageId m))"

text \<open>
  Modelled from the spec: the ordering tracker of one chain (section 4.3). The tracker
  (the protocol library's, used by the Subscription classes) is not among the sources;
  only the tests of the Subscriptions are. The four cases are those of section 4.3, in
  its order. For the far end of the gap the spec has two answers: section 4.3 says
  \<open>predecessor(m.prevMsgRef)\<close>, and its scenario S4 expects \<open>toMsgRef = (3, 0)\<close> for the
  previous reference \<open>(3, 0)\<close>, which is the previous reference itself. The repository's
  test of \<^verbatim>\<open>CombinedSubscription\<close> asserts the second, \<open>to = (3, 0)\<close> after the
  reference \<open>(1, 0)\<close> and a message with the previous reference \<open>(3, 0)\<close>, and the model
  follows the test. A message without a previous reference opens no gap.
\<close>

record tracked =
  lastRef :: "MessageRef option"
  delivered :: bool
  gap :: "(MessageRef \<times> MessageRef) option"

definition track :: "MessageRef option \<Rightarrow> StreamMessage \<Rightarrow> tracked" where
  "track lastRef0 m =
     (case lastRef0 of
        None \<Rightarrow> \<lparr>lastRef = Some (msg_ref m), delivered = True, gap = None\<rparr>
      | Some l \<Rightarrow>
          if prevMsgRef m = Some l then \<lparr>lastRef = Some (msg_ref m), delivered = True, gap = None\<rparr>
          else if ref_le (msg_ref m) l then \<lparr>lastRef = Some l, delivered = False, gap = None\<rparr>
          else \<lparr>lastRef = Some (msg_ref m), delivered = True,
                gap = (case prevMsgRef m of None \<Rightarrow> None | Some p \<Rightarrow> Some (successor l, p))\<rparr>)"

text \<open>
  Modelled from the spec: the gap-fill-in-progress keys of a Subscription (sections 3 and
  4.3): a gap on a chain with a gap fill in flight sends no request; otherwise a
  ResendRangeRequest for the range, the publisher and the chain is sent and the chain is
  marked.
\<close>

type_synonym chain = "string \<times> string"

record gap_filler =
  gf_in_progress :: "chain list"
  gf_sent :: "request list"
  gf_next_id :: nat

definition on_gap :: "string \<Rightarrow> partition \<Rightarrow> string \<Rightarrow> MessageRef \<Rightarrow> MessageRef \<Rightarrow> chain
    \<Rightarrow> gap_filler \<Rightarrow> gap_filler" where
  "on_gap sid part token fromRef toRef ch g =
     (if ch \<in> set (gf_in_progress g) then g
      else g\<lparr>gf_in_progress := ch # gf_in_progress g,
             gf_sent := gf_sent g
               @ [ResendRangeRequest sid part (gf_next_id g) fromRef toRef (Some (fst ch)) (Some (snd ch)) token],
             gf_next_id := gf_next_id g + 1\<rparr>)"

text \<open>\<^verbatim>\<open>createMsg\<close> of the \<^verbatim>\<open>CombinedSubscription\<close> test, with its defaults.\<close>

definition createMsg :: "int \<Rightarrow> int \<Rightarrow> MessageRef option \<Rightarrow> StreamMessage" where
  "createMsg ts seq prev =
     \<lparr>messageId = \<lparr>streamId = ''streamId'', streamPartition = 0, timestamp = ts,
          sequenceNumber = seq, publisherId = ''publisherId'', msgChainId = ''1''\<rparr>,
      prevMsgRef = prev, content = ''{}'', contentType = 27, encryptionType = 0,
      signatureType = SIG_NONE, signature = Some []\<rparr>"

section \<open>Properties of computeStreamPartition\<close>

lemma js_rem_range: "0 \<le> a \<Longrightarrow> 0 < n \<Longrightarrow> 0 \<le> js_rem a n \<and> js_rem a n < n"
  by (cases "a = 0") (simp_all add: js_rem_def)

lemma randomPartition_range:
  assumes "0 \<le> random" "random < 1" "0 < n"
  shows "0 \<le> randomPartition random n \<and> randomPartition random n < n"
proof -
  have "0 \<le> random * of_int n" using assms by simp
  moreover have "random * of_int n < of_int n" using assms by simp
  ultimately show ?thesis
    unfolding randomPartition_def by (simp add: floor_less_iff)
qed

text \<open>
  For a key that is not a property name of \<^verbatim>\<open>Object.prototype\<close>, with digests of at
  least four bytes, the result is a partition in range.
\<close>

lemma computeStreamPartition_in_range:
  assumes n: "1 \<le> n"
    and r: "0 \<le> random" "random < 1"
    and key: "\<And>k. partitionKey = Some k \<Longrightarrow> k \<notin> set object_prototype_keys"
    and md5: "\<And>k. 4 \<le> length (md5 k)"
    and cache: "\<And>k b. cachedHashes k = Some b \<Longrightarrow> 4 \<le> length b"
  shows "\<exists>p. fst (computeStreamPartition md5 random cachedHashes (Some n) partitionKey) = Inr p
           \<and> 0 \<le> p \<and> p < n"
proof -
  have len: "\<And>b. 4 \<le> length b \<Longrightarrow> \<exists>i. readInt32LE b = Inr i"
  proof -
    fix b :: buffer assume "4 \<le> length b"
    then obtain b0 b1 b2 b3 rest where "b = b0 # b1 # b2 # b3 # rest"
      by (cases b; cases "tl b"; cases "tl (tl b)"; cases "tl (tl (tl b))") auto
    then show "\<exists>i. readInt32LE b = Inr i" by simp
  qed
  show ?thesis
  proof (cases "n = 1")
    case True
    then show ?thesis by simp
  next
    case False
    with n have n2: "0 < n" "n \<noteq> 0" "n \<noteq> 1" by simp_all
    show ?thesis
    proof (cases "partitionKey = None \<or> partitionKey = Some []")
      case True
      then show ?thesis
        using randomPartition_range [OF r n2(1)] n2 by auto
    next
      case False
      then obtain k where k: "partitionKey = Some k" "k \<noteq> []" by auto
      have notin: "k \<notin> set object_prototype_keys" using key k by simp
      show ?thesis
      proof (cases "cachedHashes k")
        case None
        obtain i where i: "readInt32LE (md5 k) = Inr i" using len md5 by blast
        show ?thesis
          using None notin k n2 i js_rem_range [of "\<bar>i\<bar>" n]
          by (simp add: hash_def get_cached_def)
      next
        case (Some b)
        obtain i where i: "readInt32LE b = Inr i" using len cache Some by blast
        show ?thesis
          using Some k n2 i js_rem_range [of "\<bar>i\<bar>" n]
          by (simp add: hash_def get_cached_def)
      qed
    qed
  qed
qed

text \<open>The explicit \<^verbatim>\<open>throw new Error('partitionCount is falsey!')\<close> is reached exactly
  when the partition count is missing or zero.\<close>

lemma readInt32LE_not_Error: "readInt32LE b \<noteq> Inl (Error m)"
  by (cases b rule: readInt32LE.cases) simp_all

lemma computeStreamPartition_falsey:
  "fst (computeStreamPartition md5 random cachedHashes partitionCount partitionKey)
     = Inl (Error ''partitionCount is falsey!'')
   \<longleftrightarrow> partitionCount = None \<or> partitionCount = Some 0"
  by (cases partitionCount)
    (auto simp: hash_def readInt32LE_not_Error
          split: option.splits cached.splits sum.splits prod.splits)

text \<open>
  C10. The claim: for every partition count of at least 1 and any partition key,
  \<open>computeStreamPartition\<close> returns a partition \<open>p\<close> with \<open>0 \<le> p < partitionCount\<close>.
  At the key \<^verbatim>\<open>'constructor'\<close> with two partitions the program does not return: the
  read \<^verbatim>\<open>this.cachedHashes['constructor']\<close> is the inherited \<^verbatim>\<open>Object\<close> function
  and not \<^verbatim>\<open>undefined\<close>, so no digest is computed, \<open>hash\<close> returns that function, and
  \<^verbatim>\<open>buffer.readInt32LE()\<close> throws a TypeError, whatever the digest function, the random
  source and the digests already stored under other keys are.
\<close>

theorem computeStreamPartition_constructor_key_throws:
  "fst (computeStreamPartition md5 random Map.empty (Some 2) (Some ''constructor''))
     = Inl (TypeError ''buffer.readInt32LE is not a function'')"
  by (simp add: hash_def get_cached_def object_prototype_keys_def)

section \<open>Properties of the Signer\<close>

text \<open>
  C9, as the claim states it, fails: signing the unsigned message of the Signer test
  changes three of its fields after it was constructed, the signature type, the
  publisher id of its message id and the signature.
\<close>

theorem signStreamMessage_changes_message:
  "signatureType (snd (signStreamMessage ''0xSigner'' constant_sign id_payload unsigned_message SIG_ETH))
      \<noteq> signatureType unsigned_message
   \<and> publisherId (messageId (snd (signStreamMessage ''0xSigner'' constant_sign id_payload unsigned_message SIG_ETH)))
      \<noteq> publisherId (messageId unsigned_message)
   \<and> signature (snd (signStreamMessage ''0xSigner'' constant_sign id_payload unsigned_message SIG_ETH))
      \<noteq> signature unsigned_message"
  by (simp add: signStreamMessage_def signData_def unsigned_message_def constant_sign_def Let_def)

text \<open>
  C9, amended. \<open>signStreamMessage\<close> writes to the message it is handed and to nothing but
  three fields of it. Stream id, partition, timestamp, sequence number and chain id of the
  message id, the previous reference, the content, the content type and the encryption
  type are after the call what they were before. With a timestamp that is not 0, the
  signature type is the requested one and the publisher id is the signer's address, and
  when the requested type is ETH or ETH_LEGACY the call succeeds and the signature is the
  signing function's result on the payload of the message as it is then (with the new type
  and publisher and the old signature). With a timestamp of 0 the call throws and the
  message is unchanged.
\<close>

theorem signStreamMessage_frame:
  "(let r = signStreamMessage address sign getPayloadToSign m sigType; m' = snd r in
      streamId (messageId m') = streamId (messageId m)
    \<and> streamPartition (messageId m') = streamPartition (messageId m)
    \<and> timestamp (messageId m') = timestamp (messageId m)
    \<and> sequenceNumber (messageId m') = sequenceNumber (messageId m)
    \<and> msgChainId (messageId m') = msgChainId (messageId m)
    \<and> prevMsgRef m' = prevMsgRef m
    \<and> content m' = content m
    \<and> contentType m' = contentType m
    \<and> encryptionType m' = encryptionType m
    \<and> (if timestamp (messageId m) = 0 then m' = m \<and> fst r = Inl (Error ''Timestamp is required as part of the data to sign.'')
        else signatureType m' = sigType
           \<and> publisherId (messageId m') = address
           \<and> (if sigType = SIG_ETH_LEGACY \<or> sigType = SIG_ETH
               then fst r = Inr ()
                  \<and> signature m' = Some (sign (getPayloadToSign (m'\<lparr>signature := signature m\<rparr>)))
               else fst r = Inl (Error ''Unrecognized signature type'')
                  \<and> signature m' = signature m)))"
  by (simp add: signStreamMessage_def signData_def Let_def)

section \<open>Properties of validateOptions and resend\<close>

text \<open>What \<open>validateOptions\<close> refuses: no options, options that are neither a string nor an
  object, and a stream id that is missing or empty.\<close>

lemma validateOptions_rejects:
  "falsy v \<Longrightarrow> validateOptions v = Inl (Error ''options is required!'')"
  "validateOptions (JBool True) = Inl (Error ''options must be an object! Given: true'')"
  "n \<noteq> 0 \<Longrightarrow> validateOptions (JNumber n)
     = Inl (Error (''options must be an object! Given: '' @ template (JNumber n)))"
  "validateOptions (JNumber 42) = Inl (Error ''options must be an object! Given: 42'')"
  "o_streamId obj = None \<or> o_streamId obj = Some [] \<Longrightarrow>
     validateOptions (JObject obj) = Inl (Error ''streamId must be set, given: [object Object]'')"
  by (auto simp: validateOptions_def digits.simps split: option.splits)

text \<open>What it accepts, with the partition 0 when the caller's object has none, and with
  the caller's partition otherwise, whatever it is.\<close>

lemma validateOptions_accepts:
  "s \<noteq> [] \<Longrightarrow> validateOptions (JString s)
     = Inr (no_options\<lparr>o_streamId := Some s, o_streamPartition := Some (Partition 0)\<rparr>)"
  "o_streamId obj = Some s \<Longrightarrow> s \<noteq> [] \<Longrightarrow> o_streamPartition obj = None \<Longrightarrow>
     validateOptions (JObject obj) = Inr (obj\<lparr>o_streamPartition := Some (Partition 0)\<rparr>)"
  "o_streamId obj = Some s \<Longrightarrow> s \<noteq> [] \<Longrightarrow> o_streamPartition obj = Some p \<Longrightarrow>
     validateOptions (JObject obj) = Inr obj"
  by (auto simp: validateOptions_def no_options_def)

text \<open>The request \<open>resend\<close> builds for each single resend option.\<close>

lemma resend_request_single:
  "0 < n \<Longrightarrow> o_last opts = Some n \<Longrightarrow> o_from opts = None \<Longrightarrow> o_to opts = None \<Longrightarrow>
     \<exists>sid part rid. resend_request tok fresh opts = Inr (ResendLastRequest sid part rid n tok)"
  "o_last opts = None \<Longrightarrow> o_from opts = Some fr \<Longrightarrow> o_to opts = None \<Longrightarrow>
     \<exists>sid part rid. resend_request tok fresh opts
        = Inr (ResendFromRequest sid part rid fr (o_publisherId opts) (o_msgChainId opts) tok)"
  "o_last opts = None \<Longrightarrow> o_from opts = Some fr \<Longrightarrow> o_to opts = Some tr \<Longrightarrow>
     \<exists>sid part rid. resend_request tok fresh opts
        = Inr (ResendRangeRequest sid part rid fr tr (o_publisherId opts) (o_msgChainId opts) tok)"
  by (simp_all add: resend_request_def Let_def)

text \<open>
  C7. The claim: options with more than one resend variant are rejected with a
  configuration error. The options
  \<^verbatim>\<open>{streamId: 's1', last: 5, from: {timestamp: 1, sequenceNumber: 0}}\<close> carry two
  variants; \<open>validateOptions\<close> accepts them, with the partition 0, and \<open>resend\<close> builds a
  ResendLastRequest from them, whatever the session token and the request id are.
\<close>

theorem multiple_resend_options_accepted:
  "validateOptions (JObject (no_options\<lparr>o_streamId := Some ''s1'', o_last := Some 5, o_from := Some (1, 0)\<rparr>))
     = Inr (no_options\<lparr>o_streamId := Some ''s1'', o_streamPartition := Some (Partition 0),
              o_last := Some 5, o_from := Some (1, 0)\<rparr>)
   \<and> resend_request token fresh
       (no_options\<lparr>o_streamId := Some ''s1'', o_streamPartition := Some (Partition 0),
          o_last := Some 5, o_from := Some (1, 0)\<rparr>)
     = Inr (ResendLastRequest ''s1'' (Partition 0) fresh 5 token)"
  by (simp add: validateOptions_def resend_request_def no_options_def Let_def
      opt_streamId_def opt_streamPartition_def)

section \<open>Properties of waitForResponse\<close>

lemma listeners_off: "listeners (off e h c) = removeAll (e, h) (listeners c)"
  and waiters_off: "waiters (off e h c) = waiters c"
  by (simp_all add: off_def)

lemma fold_off_waiters: "waiters (fold (\<lambda>t. off (Message t) (OnResponse w)) ts c) = waiters c"
  by (induction ts arbitrary: c) (simp_all add: off_def)

lemma fold_off_listeners:
  "listeners (fold (\<lambda>t. off (Message t) (OnResponse w)) ts c)
     = filter (\<lambda>l. l \<notin> set (map (\<lambda>t. (Message t, OnResponse w)) ts)) (listeners c)"
proof (induction ts arbitrary: c)
  case Nil
  then show ?case by simp
next
  case (Cons t ts)
  have "listeners (fold (\<lambda>t. off (Message t) (OnResponse w)) (t # ts) c)
      = filter (\<lambda>l. l \<notin> set (map (\<lambda>t. (Message t, OnResponse w)) ts))
          (listeners (off (Message t) (OnResponse w) c))"
    by (simp add: Cons.IH)
  also have "\<dots> = filter (\<lambda>l. l \<notin> set (map (\<lambda>t. (Message t, OnResponse w)) (t # ts))) (listeners c)"
    by (auto simp: listeners_off removeAll_filter_not_eq intro: filter_cong)
  finally show ?case .
qed

lemma waiters_cleanup: "waiters (cleanup w c) = waiters c"
  by (simp add: cleanup_def off_def fold_off_waiters)

lemma listeners_cleanup:
  "w < length (waiters c) \<Longrightarrow>
   listeners (cleanup w c)
     = filter (\<lambda>l. l \<notin> set (map (\<lambda>t. (Message t, OnResponse w)) (w_types (waiters c ! w)))
                   \<and> l \<noteq> (Message TYPES_ErrorResponse, OnErrorResponse w)) (listeners c)"
  by (auto simp add: cleanup_def off_def fold_off_listeners removeAll_filter_not_eq intro: filter_cong)

lemma waiters_settle_length: "length (waiters (settle w out c)) = length (waiters c)"
  by (simp add: settle_def)

lemma listeners_settle: "listeners (settle w out c) = listeners c"
  by (simp add: settle_def)

lemma waiter_listeners_settle: "waiter_listeners w' (settle w out c) = waiter_listeners w' c"
  by (simp add: waiter_listeners_def listeners_settle)

lemma waiter_listeners_cleanup_other:
  "w' \<noteq> w \<Longrightarrow> waiter_listeners w (cleanup w' c) = waiter_listeners w c"
proof (cases "w' < length (waiters c)")
  case True
  assume "w' \<noteq> w"
  then show ?thesis
    unfolding waiter_listeners_def listeners_cleanup [OF True] filter_filter
    by (intro filter_cong) auto
next
  case False
  then show ?thesis by (simp add: cleanup_def)
qed

lemma waiter_listeners_cleanup_own:
  "w < length (waiters c) \<Longrightarrow>
   waiter_listeners w (cleanup w c)
     = filter (\<lambda>l. l \<notin> set (registered w (w_types (waiters c ! w)))) (waiter_listeners w c)"
  unfolding waiter_listeners_def filter_filter
  by (simp add: listeners_cleanup registered_def) (intro filter_cong, auto)

lemma call_handler_length: "length (waiters (call_handler h arg c)) = length (waiters c)"
  by (cases "(h, arg, c)" rule: call_handler.cases)
    (simp_all add: waiters_settle_length waiters_cleanup)

lemma call_handler_other:
  assumes "handler_waiter h \<noteq> w"
  shows "waiters (call_handler h arg c) ! w = waiters c ! w"
    and "waiter_listeners w (call_handler h arg c) = waiter_listeners w c"
proof -
  have s1: "waiters (settle w' out c') ! w = waiters c' ! w" if "w' \<noteq> w" for w' out c'
    using that by (simp add: settle_def)
  show "waiters (call_handler h arg c) ! w = waiters c ! w"
    using assms
    by (cases "(h, arg, c)" rule: call_handler.cases) (simp_all add: s1 waiters_cleanup)
  show "waiter_listeners w (call_handler h arg c) = waiter_listeners w c"
    using assms
    by (cases "(h, arg, c)" rule: call_handler.cases)
      (simp_all add: waiter_listeners_settle waiter_listeners_cleanup_other)
qed

lemma call_handler_other_id:
  assumes "res_requestId res \<noteq> Some requestId" "waiting w requestId types c" "handler_waiter h = w"
  shows "call_handler h (Some res) c = c"
proof -
  have "w_requestId (waiters c ! w) = requestId" using assms(2) by (simp add: waiting_def)
  then show ?thesis using assms(1,3) by (cases h) simp_all
qed

lemma call_handler_waiting:
  assumes "waiting w requestId types c"
    and "\<And>res. handler_waiter h = w \<Longrightarrow> arg = Some res \<Longrightarrow> res_requestId res \<noteq> Some requestId"
  shows "waiting w requestId types (call_handler h arg c)"
proof (cases "handler_waiter h = w")
  case False
  then show ?thesis
    using assms(1) call_handler_other [OF False, of arg c]
    by (simp add: waiting_def call_handler_length)
next
  case True
  show ?thesis
  proof (cases arg)
    case None
    then show ?thesis using assms(1) by simp
  next
    case (Some res)
    have "res_requestId res \<noteq> Some requestId" by (rule assms(2) [OF True Some])
    then have "call_handler h (Some res) c = c"
      using call_handler_other_id assms(1) True by blast
    then show ?thesis using assms(1) Some by simp
  qed
qed

lemma call_handler_settled:
  assumes "settled w requestId types out c"
  shows "settled w requestId types out (call_handler h arg c)"
proof (cases "handler_waiter h = w")
  case False
  then show ?thesis
    using assms call_handler_other [OF False, of arg c]
    by (simp add: settled_def call_handler_length)
next
  case True
  show ?thesis
  proof (cases arg)
    case None
    then show ?thesis using assms by simp
  next
    case (Some res)
    have w: "w < length (waiters c)" using assms by (simp add: settled_def)
    have wl: "waiter_listeners w (cleanup w c) = []"
      using assms by (simp add: waiter_listeners_cleanup_own [OF w] settled_def)
    have st: "settle w out' (cleanup w c) = cleanup w c" for out'
      using assms by (simp add: settle_def waiters_cleanup settled_def)
    have "settled w requestId types out (cleanup w c)"
      using assms wl by (simp add: settled_def waiters_cleanup)
    then have "settled w requestId types out (call_handler h (Some res) c)"
      using True st assms by (cases h) (simp_all add: settled_def)
    then show ?thesis using Some by simp
  qed
qed

lemma call_handler_settles:
  assumes "waiting w requestId types c" "handler_waiter h = w" "res_requestId res = Some requestId"
  shows "settled w requestId types
           (case h of OnResponse x \<Rightarrow> Resolved res
                    | OnErrorResponse x \<Rightarrow> Rejected (res_errorMessage res) (res_errorCode res))
           (call_handler h (Some res) c)"
proof -
  have w: "w < length (waiters c)" using assms by (simp add: waiting_def)
  have wl: "waiter_listeners w (cleanup w c) = []"
    using assms by (simp add: waiter_listeners_cleanup_own [OF w] waiting_def)
  have wt: "waiters c ! w = \<lparr>w_requestId = requestId, w_types = types, w_promise = Pending\<rparr>"
    using assms by (simp add: waiting_def)
  have "settled w requestId types out (settle w out (cleanup w c))" if "out \<noteq> Pending" for out
    using that wl w wt
    by (simp add: settled_def waiter_listeners_settle) (simp add: settle_def waiters_cleanup)
  then have both: "settled w requestId types (Resolved res) (settle w (Resolved res) (cleanup w c))"
    "settled w requestId types (Rejected (res_errorMessage res) (res_errorCode res))
       (settle w (Rejected (res_errorMessage res) (res_errorCode res)) (cleanup w c))"
    by simp_all
  show ?thesis
  proof (cases h)
    case (OnResponse x)
    with assms(2) have "x = w" by simp
    then show ?thesis using OnResponse both(1) assms(3) w wt by simp
  next
    case (OnErrorResponse x)
    with assms(2) have "x = w" by simp
    then show ?thesis using OnErrorResponse both(2) assms(3) w wt by simp
  qed
qed

lemma fold_waiting:
  assumes "waiting w requestId types c"
    and "\<And>h res. h \<in> set hs \<Longrightarrow> handler_waiter h = w \<Longrightarrow> arg = Some res
           \<Longrightarrow> res_requestId res \<noteq> Some requestId"
  shows "waiting w requestId types (fold (\<lambda>h. call_handler h arg) hs c)"
  using assms
proof (induction hs arbitrary: c)
  case Nil
  then show ?case by simp
next
  case (Cons h hs)
  have "waiting w requestId types (call_handler h arg c)"
    by (rule call_handler_waiting [OF Cons.prems(1)]) (rule Cons.prems(2), simp_all)
  then have "waiting w requestId types (fold (\<lambda>h. call_handler h arg) hs (call_handler h arg c))"
    by (rule Cons.IH) (rule Cons.prems(2), simp_all)
  then show ?case by simp
qed

lemma waitingD:
  assumes "waiting w requestId types c"
  shows "w < length (waiters c)"
    and "waiters c ! w = \<lparr>w_requestId = requestId, w_types = types, w_promise = Pending\<rparr>"
    and "waiter_listeners w c = registered w types"
  using assms unfolding waiting_def by blast+

lemma emitMessages_Cons: "emitMessages (m # msgs) c = emitMessages msgs (emitMessage m c)"
  by (simp add: emitMessages_def)

lemma emitMessages_Nil: "emitMessages [] c = c"
  by (simp add: emitMessages_def)

lemma fold_settled:
  "settled w requestId types out c
   \<Longrightarrow> settled w requestId types out (fold (\<lambda>h. call_handler h arg) hs c)"
  by (induction hs arbitrary: c) (simp_all add: call_handler_settled)

lemma emit_settled:
  "settled w requestId types out c \<Longrightarrow> settled w requestId types out (emit e arg c)"
  by (simp add: emit_def fold_settled)

lemma emitMessages_settled:
  "settled w requestId types out c \<Longrightarrow> settled w requestId types out (emitMessages msgs c)"
  by (induction msgs arbitrary: c)
    (simp_all add: emitMessages_Nil emitMessages_Cons emitMessage_def emit_settled)

lemma own_handlers_of_event:
  "filter (\<lambda>h. handler_waiter h = w) (map snd (filter (\<lambda>l. fst l = e) (listeners c)))
     = map snd (filter (\<lambda>l. fst l = e) (waiter_listeners w c))"
  by (simp add: waiter_listeners_def filter_map o_def conj_commute)

lemma registered_of_event:
  "map snd (filter (\<lambda>l. fst l = Message ty) (registered w types))
     = map (\<lambda>t. OnResponse w) (filter (\<lambda>t. t = ty) types)
       @ (if ty = TYPES_ErrorResponse then [OnErrorResponse w] else [])"
  by (induction types) (auto simp: registered_def)

lemma filter_nonempty_ex: "filter P xs \<noteq> [] \<Longrightarrow> \<exists>x\<in>set xs. P x"
  by (induction xs) (auto split: if_splits)

lemma emitMessage_not_awaited:
  assumes "waiting w requestId types c" "\<not> awaited types requestId res"
  shows "waiting w requestId types (emitMessage res c)"
  unfolding emitMessage_def emit_def
proof (rule fold_waiting [OF assms(1)])
  fix h res'
  assume h: "h \<in> set (map snd (filter (\<lambda>l. fst l = Message (res_type res)) (listeners c)))"
    and own: "handler_waiter h = w" and arg: "Some res = Some res'"
  from h own have "h \<in> set (filter (\<lambda>h. handler_waiter h = w)
      (map snd (filter (\<lambda>l. fst l = Message (res_type res)) (listeners c))))"
    by simp
  then have "h \<in> set (map snd (filter (\<lambda>l. fst l = Message (res_type res)) (registered w types)))"
    unfolding own_handlers_of_event waitingD(3) [OF assms(1)] .
  then have "h \<in> set (map (\<lambda>t. OnResponse w) (filter (\<lambda>t. t = res_type res) types)
       @ (if res_type res = TYPES_ErrorResponse then [OnErrorResponse w] else []))"
    unfolding registered_of_event .
  then have "res_type res \<in> set types \<or> res_type res = TYPES_ErrorResponse"
    by (cases "res_type res = TYPES_ErrorResponse") auto
  with assms(2) arg show "res_requestId res' \<noteq> Some requestId"
    by (simp add: awaited_def)
qed

lemma emitMessage_awaited:
  assumes "waiting w requestId types c" "awaited types requestId res"
  shows "settled w requestId types
           (if res_type res \<in> set types then Resolved res
            else Rejected (res_errorMessage res) (res_errorCode res))
           (emitMessage res c)"
proof -
  let ?hs = "map snd (filter (\<lambda>l. fst l = Message (res_type res)) (listeners c))"
  let ?P = "\<lambda>h. handler_waiter h = w"
  let ?own = "map (\<lambda>t. OnResponse w) (filter (\<lambda>t. t = res_type res) types)
       @ (if res_type res = TYPES_ErrorResponse then [OnErrorResponse w] else [])"
  have own: "filter ?P ?hs = ?own"
    unfolding own_handlers_of_event waitingD(3) [OF assms(1)] registered_of_event ..
  have rid: "res_requestId res = Some requestId" using assms(2) by (simp add: awaited_def)
  have ne: "?own \<noteq> []"
    using assms(2) by (auto simp: awaited_def filter_empty_conv)
  then have "filter ?P ?hs \<noteq> []"
    unfolding own .
  then have "\<exists>h \<in> set ?hs. ?P h"
    by (rule filter_nonempty_ex)
  then have "\<exists>ys x zs. ?hs = ys @ x # zs \<and> ?P x \<and> (\<forall>y\<in>set ys. \<not> ?P y)"
    by (rule split_list_first_prop)
  then obtain ys x zs where split: "?hs = ys @ x # zs" "?P x" "\<forall>y\<in>set ys. \<not> ?P y"
    by (elim exE conjE)
  have "filter ?P ?hs = x # filter ?P zs"
    using split by simp
  then have hd: "?own = x # filter ?P zs" using own by simp
  have x: "x = (if res_type res \<in> set types then OnResponse w else OnErrorResponse w)"
  proof (cases "res_type res \<in> set types")
    case True
    then have "filter (\<lambda>t. t = res_type res) types \<noteq> []"
      by (auto simp: filter_empty_conv)
    then obtain t ts where "filter (\<lambda>t. t = res_type res) types = t # ts"
      by (cases "filter (\<lambda>t. t = res_type res) types") auto
    then show ?thesis using hd True by simp
  next
    case False
    then have "filter (\<lambda>t. t = res_type res) types = []"
      by (auto simp: filter_empty_conv)
    then show ?thesis using hd False ne by (auto split: if_splits)
  qed
  have w1: "waiting w requestId types (fold (\<lambda>h. call_handler h (Some res)) ys c)"
    by (rule fold_waiting [OF assms(1)]) (use split(3) in blast)
  have out: "(case x of OnResponse y \<Rightarrow> Resolved res
                   | OnErrorResponse y \<Rightarrow> Rejected (res_errorMessage res) (res_errorCode res))
      = (if res_type res \<in> set types then Resolved res
            else Rejected (res_errorMessage res) (res_errorCode res))"
    unfolding x by simp
  have "settled w requestId types
          (case x of OnResponse y \<Rightarrow> Resolved res
                   | OnErrorResponse y \<Rightarrow> Rejected (res_errorMessage res) (res_errorCode res))
          (call_handler x (Some res) (fold (\<lambda>h. call_handler h (Some res)) ys c))"
    by (rule call_handler_settles [OF w1 split(2) rid])
  then have "settled w requestId types
          (if res_type res \<in> set types then Resolved res
            else Rejected (res_errorMessage res) (res_errorCode res))
          (call_handler x (Some res) (fold (\<lambda>h. call_handler h (Some res)) ys c))"
    unfolding out .
  then have "settled w requestId types
          (if res_type res \<in> set types then Resolved res
            else Rejected (res_errorMessage res) (res_errorCode res))
          (fold (\<lambda>h. call_handler h (Some res)) zs
             (call_handler x (Some res) (fold (\<lambda>h. call_handler h (Some res)) ys c)))"
    by (rule fold_settled)
  then show ?thesis
    unfolding emitMessage_def emit_def split(1) by simp
qed

lemma emitMessages_waiter:
  assumes "waiting w requestId types c"
  shows "case find (awaited types requestId) msgs of
           None \<Rightarrow> waiting w requestId types (emitMessages msgs c)
         | Some res \<Rightarrow>
             settled w requestId types
               (if res_type res \<in> set types then Resolved res
                else Rejected (res_errorMessage res) (res_errorCode res))
               (emitMessages msgs c)"
  using assms
proof (induction msgs arbitrary: c)
  case Nil
  then show ?case by (simp add: emitMessages_Nil)
next
  case (Cons m msgs)
  show ?case
  proof (cases "awaited types requestId m")
    case True
    have "settled w requestId types
               (if res_type m \<in> set types then Resolved m
                else Rejected (res_errorMessage m) (res_errorCode m))
               (emitMessages msgs (emitMessage m c))"
      by (rule emitMessages_settled [OF emitMessage_awaited [OF Cons.prems True]])
    then show ?thesis unfolding emitMessages_Cons using True by simp
  next
    case False
    have "waiting w requestId types (emitMessage m c)"
      by (rule emitMessage_not_awaited [OF Cons.prems False])
    from Cons.IH [OF this] show ?thesis
      unfolding emitMessages_Cons using False by simp
  qed
qed

lemma fold_on_listeners:
  "listeners (fold (\<lambda>t. on (Message t) (OnResponse w)) ts c)
      = listeners c @ map (\<lambda>t. (Message t, OnResponse w)) ts"
  by (induction ts arbitrary: c) (simp_all add: on_def)

lemma fold_on_waiters: "waiters (fold (\<lambda>t. on (Message t) (OnResponse w)) ts c) = waiters c"
  by (induction ts arbitrary: c) (simp_all add: on_def)

lemma waitForResponse_fst: "fst (waitForResponse types requestId c) = length (waiters c)"
  by (simp add: waitForResponse_def Let_def)

lemma waitForResponse_waiters:
  "waiters (snd (waitForResponse types requestId c))
     = waiters c @ [\<lparr>w_requestId = requestId, w_types = types, w_promise = Pending\<rparr>]"
  by (simp add: waitForResponse_def Let_def on_def fold_on_waiters)

lemma waitForResponse_listeners:
  "listeners (snd (waitForResponse types requestId c))
     = listeners c @ registered (length (waiters c)) types"
  by (simp add: waitForResponse_def Let_def on_def fold_on_listeners registered_def)

lemma waitForResponse_waiting:
  assumes "known_handlers c"
  shows "waiting (length (waiters c)) requestId types (snd (waitForResponse types requestId c))"
proof -
  have none: "filter (\<lambda>l. handler_waiter (snd l) = length (waiters c)) (listeners c) = []"
    using assms by (auto simp: known_handlers_def list_all_iff filter_empty_conv)
  have own: "filter (\<lambda>l. handler_waiter (snd l) = w) (registered w types) = registered w types" for w
    by (simp add: registered_def o_def)
  have "waiter_listeners (length (waiters c)) (snd (waitForResponse types requestId c))
      = registered (length (waiters c)) types"
    unfolding waiter_listeners_def waitForResponse_listeners filter_append none own by simp
  then show ?thesis
    unfolding waiting_def waitForResponse_waiters by simp
qed

lemma new_connection_known: "known_handlers new_connection"
  by (simp add: known_handlers_def new_connection_def)

lemma PAIRS_types:
  "map_of PAIRS (request_type request)
     = Some (case request of
               SubscribeRequest sid part tok rid \<Rightarrow> [TYPES_SubscribeResponse]
             | UnsubscribeRequest sid part tok rid \<Rightarrow> [TYPES_UnsubscribeResponse]
             | ResendLastRequest sid part rid n tok \<Rightarrow>
                 [TYPES_ResendResponseResending, TYPES_ResendResponseNoResend]
             | ResendFromRequest sid part rid fr pub chain tok \<Rightarrow>
                 [TYPES_ResendResponseResending, TYPES_ResendResponseNoResend]
             | ResendRangeRequest sid part rid fr tr pub chain tok \<Rightarrow>
                 [TYPES_ResendResponseResending, TYPES_ResendResponseNoResend])"
  by (cases request) (simp_all add: PAIRS_def ResendResponses_def)

text \<open>
  C4. A request is sent with the waiter \<open>waitForRequestResponse\<close> registers for it, on a
  connection whose listeners belong to earlier waiters. Its expected types are those
  \<open>PAIRS\<close> gives for the type of the request: SubscribeResponse for a SubscribeRequest,
  UnsubscribeResponse for an UnsubscribeRequest, ResendResponseResending and
  ResendResponseNoResend for the three resend requests. Whatever messages arrive
  afterwards, with the first of them that carries the request id and is of an expected
  type or an ErrorResponse the promise is settled for good: resolved with that message
  when its type is expected, rejected with the error message and the error code of the
  ErrorResponse otherwise, and no listener of the waiter is left on the connection. As
  long as no such message has arrived the promise is pending and the listeners stay.
\<close>

theorem waitForRequestResponse_settles:
  assumes "known_handlers c"
  shows "\<exists>types w c1.
           map_of PAIRS (request_type request) = Some types
         \<and> types = (case request of
               SubscribeRequest sid part tok rid \<Rightarrow> [TYPES_SubscribeResponse]
             | UnsubscribeRequest sid part tok rid \<Rightarrow> [TYPES_UnsubscribeResponse]
             | ResendLastRequest sid part rid n tok \<Rightarrow>
                 [TYPES_ResendResponseResending, TYPES_ResendResponseNoResend]
             | ResendFromRequest sid part rid fr pub chain tok \<Rightarrow>
                 [TYPES_ResendResponseResending, TYPES_ResendResponseNoResend]
             | ResendRangeRequest sid part rid fr tr pub chain tok \<Rightarrow>
                 [TYPES_ResendResponseResending, TYPES_ResendResponseNoResend])
         \<and> waitForRequestResponse request c = Inr (w, c1)
         \<and> (case find (awaited types (request_id request)) msgs of
               None \<Rightarrow> waiting w (request_id request) types (emitMessages msgs c1)
             | Some res \<Rightarrow>
                 settled w (request_id request) types
                   (if res_type res \<in> set types then Resolved res
                    else Rejected (res_errorMessage res) (res_errorCode res))
                   (emitMessages msgs c1))"
proof -
  obtain types where types: "map_of PAIRS (request_type request) = Some types"
    using PAIRS_types by blast
  let ?w = "length (waiters c)"
  let ?c1 = "snd (waitForResponse types (request_id request) c)"
  have run: "waitForRequestResponse request c = Inr (?w, ?c1)"
    by (simp add: waitForRequestResponse_def types prod_eq_iff waitForResponse_fst)
  have "waiting ?w (request_id request) types ?c1"
    by (rule waitForResponse_waiting [OF assms])
  then have "case find (awaited types (request_id request)) msgs of
               None \<Rightarrow> waiting ?w (request_id request) types (emitMessages msgs ?c1)
             | Some res \<Rightarrow>
                 settled ?w (request_id request) types
                   (if res_type res \<in> set types then Resolved res
                    else Rejected (res_errorMessage res) (res_errorCode res))
                   (emitMessages msgs ?c1)"
    by (rule emitMessages_waiter)
  then show ?thesis
    using types run PAIRS_types [of request] by (intro exI [of _ types] exI [of _ ?w] exI [of _ ?c1]) simp
qed

text \<open>
  The theorem at a SubscribeRequest with request id 7 on a new connection: a
  SubscribeResponse for another request and an UnsubscribeResponse with the id 7 leave
  the promise pending, the SubscribeResponse with the id 7 resolves it, and the
  ErrorResponse after it changes nothing.
\<close>

theorem waitForRequestResponse_settles_witness:
  "known_handlers new_connection
   \<and> (\<exists>w c1.
         waitForRequestResponse (SubscribeRequest ''s1'' (Partition 0) ''session-token'' 7) new_connection = Inr (w, c1)
       \<and> waiting w 7 [TYPES_SubscribeResponse]
           (emitMessages [response TYPES_SubscribeResponse 3, response TYPES_UnsubscribeResponse 7] c1)
       \<and> settled w 7 [TYPES_SubscribeResponse] (Resolved (response TYPES_SubscribeResponse 7))
           (emitMessages
              [response TYPES_SubscribeResponse 3, response TYPES_UnsubscribeResponse 7,
               response TYPES_SubscribeResponse 7, response TYPES_ErrorResponse 7] c1))"
proof -
  let ?req = "SubscribeRequest ''s1'' (Partition 0) ''session-token'' 7"
  let ?early = "[response TYPES_SubscribeResponse 3, response TYPES_UnsubscribeResponse 7]"
  let ?all = "[response TYPES_SubscribeResponse 3, response TYPES_UnsubscribeResponse 7,
               response TYPES_SubscribeResponse 7, response TYPES_ErrorResponse 7]"
  have k: "known_handlers new_connection" by (rule new_connection_known)
  obtain w c1 where run: "waitForRequestResponse ?req new_connection = Inr (w, c1)"
    using waitForRequestResponse_settles [OF k, of ?req "[]"] by auto
  have early: "waiting w 7 [TYPES_SubscribeResponse] (emitMessages ?early c1)"
    using waitForRequestResponse_settles [OF k, of ?req ?early] run
    by (simp add: awaited_def response_def)
  have all: "settled w 7 [TYPES_SubscribeResponse] (Resolved (response TYPES_SubscribeResponse 7))
      (emitMessages ?all c1)"
    using waitForRequestResponse_settles [OF k, of ?req ?all] run
    by (simp add: awaited_def response_def)
  show ?thesis using k run early all by blast
qed

text \<open>
  C5, as the claim states it, fails. A waiter for a SubscribeResponse is registered on a
  new connection and the connection emits \<^verbatim>\<open>disconnected\<close>: the promise is not rejected,
  it is still pending.
\<close>

theorem disconnected_leaves_promise_pending:
  "w_promise (waiters (emit Disconnected None
       (snd (waitForResponse [TYPES_SubscribeResponse] 0 new_connection))) ! 0) = Pending"
  by (simp add: waitForResponse_def new_connection_def on_def emit_def Let_def)

text \<open>
  C5, amended. \<open>waitForResponse\<close> registers listeners for its response types and for
  ErrorResponse and for no event of the connection itself. So when the connection emits
  \<^verbatim>\<open>disconnected\<close>, with whatever argument, a waiter that is pending stays pending and
  its listeners stay registered: a disconnect settles no waiter, and the waiter is still
  settled by the first awaited message that arrives later.
\<close>

theorem disconnected_keeps_waiting:
  assumes "waiting w requestId types c"
  shows "waiting w requestId types (emit Disconnected arg c)
       \<and> (case find (awaited types requestId) msgs of
             None \<Rightarrow> waiting w requestId types (emitMessages msgs (emit Disconnected arg c))
           | Some res \<Rightarrow>
               settled w requestId types
                 (if res_type res \<in> set types then Resolved res
                  else Rejected (res_errorMessage res) (res_errorCode res))
                 (emitMessages msgs (emit Disconnected arg c)))"
proof -
  have w: "waiting w requestId types (emit Disconnected arg c)"
    unfolding emit_def
  proof (rule fold_waiting [OF assms])
    fix h res
    assume h: "h \<in> set (map snd (filter (\<lambda>l. fst l = Disconnected) (listeners c)))"
      and own: "handler_waiter h = w"
    from h own have "h \<in> set (filter (\<lambda>h. handler_waiter h = w)
        (map snd (filter (\<lambda>l. fst l = Disconnected) (listeners c))))"
      by simp
    then have "h \<in> set (map snd (filter (\<lambda>l. fst l = Disconnected) (registered w types)))"
      unfolding own_handlers_of_event waitingD(3) [OF assms] .
    then have False by (auto simp: registered_def)
    then show "res_requestId res \<noteq> Some requestId" ..
  qed
  from emitMessages_waiter [OF w] w show ?thesis by blast
qed

theorem disconnected_keeps_waiting_witness:
  "waiting 0 0 [TYPES_SubscribeResponse] (snd (waitForResponse [TYPES_SubscribeResponse] 0 new_connection))
   \<and> waiting 0 0 [TYPES_SubscribeResponse]
       (emit Disconnected None (snd (waitForResponse [TYPES_SubscribeResponse] 0 new_connection)))
   \<and> settled 0 0 [TYPES_SubscribeResponse] (Resolved (response TYPES_SubscribeResponse 0))
       (emitMessages [response TYPES_SubscribeResponse 0]
          (emit Disconnected None (snd (waitForResponse [TYPES_SubscribeResponse] 0 new_connection))))"
proof -
  let ?c = "snd (waitForResponse [TYPES_SubscribeResponse] 0 new_connection)"
  have h: "waiting 0 0 [TYPES_SubscribeResponse] ?c"
    using waitForResponse_waiting [OF new_connection_known, of 0 "[TYPES_SubscribeResponse]"]
    by (simp add: new_connection_def)
  show ?thesis
    using h disconnected_keeps_waiting [OF h, of None "[response TYPES_SubscribeResponse 0]"]
    by (simp add: awaited_def response_def)
qed

section \<open>Properties of Subscription and Subscriptions\<close>

subsection \<open>What a call for one key leaves as it is for another\<close>

text \<open>
  A new waiter leaves the waiters before it as they are, and so does a request that is
  sent for another key: the bodies of \<^verbatim>\<open>subscribe\<close> and \<^verbatim>\<open>unsubscribe\<close> of a
  Subscription send requests for the key of its options only, however many of them the
  queue runs.
\<close>

lemma unaffected_refl: "unaffected k cl cl"
  by (simp add: unaffected_def)

lemma unaffected_trans: "unaffected k a b \<Longrightarrow> unaffected k b c \<Longrightarrow> unaffected k a c"
  by (simp add: unaffected_def)

lemma registered_other:
  "n \<noteq> w \<Longrightarrow> filter (\<lambda>l. handler_waiter (snd l) = w) (registered n tys) = []"
  by (simp add: registered_def o_def)

lemma waitForResponse_keeps_waiting:
  assumes "waiting w rid tys c"
  shows "waiting w rid tys (snd (waitForResponse tys' rid' c))"
proof -
  have w: "w < length (waiters c)" using assms by (simp add: waiting_def)
  then have ne: "length (waiters c) \<noteq> w" by simp
  show ?thesis
    using assms w
    by (simp add: waiting_def waitForResponse_waiters waitForResponse_listeners nth_append
        waiter_listeners_def registered_other [OF ne])
qed

lemma waitForResponse_keeps_settled:
  assumes "settled w rid tys out c"
  shows "settled w rid tys out (snd (waitForResponse tys' rid' c))"
proof -
  have w: "w < length (waiters c)" using assms by (simp add: settled_def)
  then have ne: "length (waiters c) \<noteq> w" by simp
  show ?thesis
    using assms w
    by (simp add: settled_def waitForResponse_waiters waitForResponse_listeners nth_append
        waiter_listeners_def registered_other [OF ne])
qed

lemma waitForResponse_known:
  assumes "known_handlers c"
  shows "known_handlers (snd (waitForResponse tys rid c))"
  using assms
  by (auto simp: known_handlers_def waitForResponse_waiters waitForResponse_listeners
      list_all_iff registered_def)

lemma call_handler_listeners: "set (listeners (call_handler h arg c)) \<subseteq> set (listeners c)"
proof -
  have "set (listeners (cleanup w c)) \<subseteq> set (listeners c)" for w
    by (cases "w < length (waiters c)") (auto simp: listeners_cleanup, simp add: cleanup_def)
  then show ?thesis
    by (cases "(h, arg, c)" rule: call_handler.cases) (simp_all add: listeners_settle)
qed

lemma call_handler_known: "known_handlers c \<Longrightarrow> known_handlers (call_handler h arg c)"
  using call_handler_listeners [of h arg c]
  by (auto simp: known_handlers_def list_all_iff call_handler_length)

lemma emitMessage_known: "known_handlers c \<Longrightarrow> known_handlers (emitMessage res c)"
proof -
  have "known_handlers c \<Longrightarrow> known_handlers (fold (\<lambda>h. call_handler h arg) hs c)" for arg hs
    by (induction hs arbitrary: c) (simp_all add: call_handler_known)
  then show "known_handlers c \<Longrightarrow> known_handlers (emitMessage res c)"
    by (simp add: emitMessage_def emit_def)
qed

lemma send_request_result:
  assumes "map_of PAIRS (request_type req) = Some tys"
  shows "\<exists>cl'. send_request req cl = Inr (length (waiters (connection cl)), cl')
       \<and> connection cl' = snd (waitForResponse tys (request_id req) (connection cl))
       \<and> sent cl' = sent cl @ [req]
       \<and> sessionToken cl' = sessionToken cl
       \<and> uuid_count cl' = uuid_count cl"
  using assms
  by (simp add: send_request_def waitForRequestResponse_def case_prod_unfold waitForResponse_fst)

lemma subscribe_result:
  "\<exists>cl'. subscribe opts cl = Inr (length (waiters (connection cl)), cl')
       \<and> connection cl' = snd (waitForResponse [TYPES_SubscribeResponse] (uuid_count cl) (connection cl))
       \<and> sent cl' = sent cl
             @ [SubscribeRequest (fst (key_of opts)) (snd (key_of opts)) (sessionToken cl) (uuid_count cl)]
       \<and> sessionToken cl' = sessionToken cl
       \<and> uuid_count cl' = Suc (uuid_count cl)"
  using send_request_result [of "SubscribeRequest (opt_streamId opts) (opt_streamPartition opts)
      (sessionToken cl) (uuid_count cl)" "[TYPES_SubscribeResponse]" "cl\<lparr>uuid_count := uuid_count cl + 1\<rparr>"]
  by (simp add: subscribe_def PAIRS_def key_of_def)

lemma unsubscribe_result:
  "\<exists>cl'. unsubscribe opts cl = Inr (length (waiters (connection cl)), cl')
       \<and> connection cl' = snd (waitForResponse [TYPES_UnsubscribeResponse] (uuid_count cl) (connection cl))
       \<and> sent cl' = sent cl
             @ [UnsubscribeRequest (fst (key_of opts)) (snd (key_of opts)) (sessionToken cl) (uuid_count cl)]
       \<and> sessionToken cl' = sessionToken cl
       \<and> uuid_count cl' = Suc (uuid_count cl)"
  using send_request_result [of "UnsubscribeRequest (opt_streamId opts) (opt_streamPartition opts)
      (sessionToken cl) (uuid_count cl)" "[TYPES_UnsubscribeResponse]" "cl\<lparr>uuid_count := uuid_count cl + 1\<rparr>"]
  by (simp add: unsubscribe_def PAIRS_def key_of_def)

lemma unaffected_request:
  assumes "sessionToken cl' = sessionToken cl" "sent cl' = sent cl @ [req]"
    and "\<not> is_SubscribeRequest k req" "\<not> is_UnsubscribeRequest k req"
    and "connection cl' = snd (waitForResponse tys rid (connection cl))"
  shows "unaffected k cl cl'"
  using assms
  by (simp add: unaffected_def subscribe_requests_def unsubscribe_requests_def
      waitForResponse_keeps_waiting waitForResponse_keeps_settled waitForResponse_known)

lemma start_task_unaffected:
  assumes "key_of (s_options sub) \<noteq> k"
  shows "\<exists>r sub' cl'. start_task t (sub, cl) = (r, sub', cl')
           \<and> s_options sub' = s_options sub \<and> unaffected k cl cl'"
proof (cases t)
  case Subscribe
  show ?thesis
  proof (cases "sendSubscribe_cache sub")
    case None
    obtain cl' where r: "subscribe (s_options sub) cl = Inr (length (waiters (connection cl)), cl')"
      and c: "connection cl' = snd (waitForResponse [TYPES_SubscribeResponse] (uuid_count cl) (connection cl))"
      and s: "sent cl' = sent cl @ [SubscribeRequest (fst (key_of (s_options sub)))
                 (snd (key_of (s_options sub))) (sessionToken cl) (uuid_count cl)]"
      and t: "sessionToken cl' = sessionToken cl"
      using subscribe_result [of "s_options sub" cl] by blast
    have "unaffected k cl cl'"
      by (rule unaffected_request [OF t s _ _ c]) (use assms in \<open>auto simp: prod_eq_iff\<close>)
    then show ?thesis
      using Subscribe None r by (simp add: sendSubscribe_def)
  next
    case (Some p)
    then show ?thesis
      using Subscribe by (simp add: sendSubscribe_def unaffected_refl)
  qed
next
  case Unsubscribe
  show ?thesis
  proof (cases "sendUnsubscribe_cache sub")
    case None
    obtain cl' where r: "unsubscribe (s_options sub) cl = Inr (length (waiters (connection cl)), cl')"
      and c: "connection cl' = snd (waitForResponse [TYPES_UnsubscribeResponse] (uuid_count cl) (connection cl))"
      and s: "sent cl' = sent cl @ [UnsubscribeRequest (fst (key_of (s_options sub)))
                 (snd (key_of (s_options sub))) (sessionToken cl) (uuid_count cl)]"
      and t: "sessionToken cl' = sessionToken cl"
      using unsubscribe_result [of "s_options sub" cl] by blast
    have "unaffected k cl cl'"
      by (rule unaffected_request [OF t s _ _ c]) (use assms in \<open>auto simp: prod_eq_iff\<close>)
    then show ?thesis
      using Unsubscribe None r by (simp add: sendUnsubscribe_def)
  next
    case (Some p)
    then show ?thesis
      using Unsubscribe by (simp add: sendUnsubscribe_def unaffected_refl)
  qed
qed

lemma start_task_options: "s_options (fst (snd (start_task t (sub, cl)))) = s_options sub"
  by (cases t)
    (auto simp: sendSubscribe_def sendUnsubscribe_def split: option.splits sum.splits)

lemma finish_task_options: "s_options (finish_task t sub) = s_options sub"
  and fail_task_options: "s_options (fail_task t sub) = s_options sub"
  by (cases t; simp)+

lemma run_queue_options: "s_options (fst (run_queue ts (sub, cl))) = s_options sub"
proof (induction ts arbitrary: sub cl)
  case Nil
  then show ?case by simp
next
  case (Cons t ts)
  obtain r sub1 cl1 where st: "start_task t (sub, cl) = (r, sub1, cl1)"
    by (cases "start_task t (sub, cl)") auto
  have o: "s_options sub1 = s_options sub"
    using start_task_options [of t sub cl] st by simp
  show ?case
    using o st Cons.IH
    by (simp add: finish_task_options fail_task_options split: sum.splits outcome.splits)
qed

lemma run_queue_unaffected:
  assumes "key_of (s_options sub) \<noteq> k"
  shows "unaffected k cl (snd (run_queue ts (sub, cl)))"
  using assms
proof (induction ts arbitrary: sub cl)
  case Nil
  then show ?case by (simp add: unaffected_refl)
next
  case (Cons t ts)
  obtain r sub1 cl1 where st: "start_task t (sub, cl) = (r, sub1, cl1)"
    and o: "s_options sub1 = s_options sub" and u: "unaffected k cl cl1"
    using start_task_unaffected [OF Cons.prems, of t cl] by blast
  have rest: "unaffected k cl1 (snd (run_queue ts (sub2, cl1)))" if "s_options sub2 = s_options sub" for sub2
    by (rule Cons.IH) (use that Cons.prems in simp)
  have next_step: "unaffected k cl (snd (run_queue ts (sub2, cl1)))" if "s_options sub2 = s_options sub" for sub2
    by (rule unaffected_trans [OF u rest [OF that]])
  show ?case
  proof (cases r)
    case (Inl e)
    then show ?thesis using st next_step [of "sub1\<lparr>rejected := rejected sub1 + 1\<rparr>"] o by simp
  next
    case (Inr p)
    show ?thesis
    proof (cases "promise_of cl1 p")
      case Pending
      then show ?thesis using st Inr u by simp
    next
      case (Resolved res)
      then show ?thesis
        using st Inr next_step [of "finish_task t sub1"] o by (simp add: finish_task_options)
    next
      case (Rejected m c)
      then show ?thesis
        using st Inr next_step [of "fail_task t sub1"] o by (simp add: fail_task_options)
    qed
  qed
qed

lemma resume_options: "s_options (fst (resume (sub, cl))) = s_options sub"
  by (simp add: resume_def run_queue_options finish_task_options fail_task_options
      split: option.splits outcome.splits prod.splits)

lemma resume_unaffected:
  assumes "key_of (s_options sub) \<noteq> k"
  shows "unaffected k cl (snd (resume (sub, cl)))"
proof -
  have "unaffected k cl (snd (run_queue ts (sub2, cl)))" if "s_options sub2 = s_options sub" for sub2 ts
    by (rule run_queue_unaffected) (use that assms in simp)
  then show ?thesis
    by (simp add: resume_def unaffected_refl finish_task_options fail_task_options
        split: option.splits outcome.splits prod.splits)
qed

lemma enqueue_options: "s_options (fst (enqueue t (sub, cl))) = s_options sub"
  using resume_options [of "sub\<lparr>pending := pending sub @ [t]\<rparr>" cl] by (simp add: enqueue_def)

lemma enqueue_unaffected:
  assumes "key_of (s_options sub) \<noteq> k"
  shows "unaffected k cl (snd (enqueue t (sub, cl)))"
  using resume_unaffected [of "sub\<lparr>pending := pending sub @ [t]\<rparr>" k cl] assms
  by (simp add: enqueue_def)

text \<open>
  When an inbound message has been emitted, the Subscriptions go on in the order of the
  map. Those of other keys leave the key \<open>k\<close> unaffected; that of \<open>k\<close>, of which there is
  one at most, goes on in between.
\<close>

lemma keyed_Cons: "keyed ((k, sub) # subs) \<longleftrightarrow> key_of (s_options sub) = k \<and> keyed subs"
  by (simp add: keyed_def)

lemma keyed_Nil: "keyed []"
  by (simp add: keyed_def)

lemma keyed_update:
  "keyed subs \<Longrightarrow> key_of (s_options sub) = k \<Longrightarrow> keyed (AList.update k sub subs)"
  by (induction subs) (auto simp: keyed_def)

lemma keyed_map_of: "keyed subs \<Longrightarrow> map_of subs k = Some sub \<Longrightarrow> key_of (s_options sub) = k"
  by (induction subs) (auto simp: keyed_def split: if_splits)

lemma resume_all_keys: "map fst (snd (resume_all subs cl)) = map fst subs"
proof (induction subs arbitrary: cl)
  case Nil
  then show ?case by simp
next
  case (Cons ks subs)
  obtain k sub where ks: "ks = (k, sub)" by (cases ks)
  obtain sub' cl' where r: "resume (sub, cl) = (sub', cl')" by (cases "resume (sub, cl)")
  obtain cl'' subs' where ra: "resume_all subs cl' = (cl'', subs')" by (cases "resume_all subs cl'")
  show ?case using Cons.IH [of cl'] by (simp add: ks r ra)
qed

lemma resume_all_keyed: "keyed subs \<Longrightarrow> keyed (snd (resume_all subs cl))"
proof (induction subs arbitrary: cl)
  case Nil
  then show ?case by simp
next
  case (Cons ks subs)
  obtain k sub where ks: "ks = (k, sub)" by (cases ks)
  obtain sub' cl' where r: "resume (sub, cl) = (sub', cl')" by (cases "resume (sub, cl)")
  have o: "s_options sub' = s_options sub" using resume_options [of sub cl] r by simp
  obtain cl'' subs' where ra: "resume_all subs cl' = (cl'', subs')" by (cases "resume_all subs cl'")
  have "keyed subs'" using Cons.IH [of cl'] Cons.prems ra by (simp add: ks keyed_Cons)
  then show ?case using Cons.prems o by (simp add: ks r ra keyed_Cons)
qed

lemma resume_all_other:
  assumes "keyed subs" "k \<notin> fst ` set subs"
  shows "unaffected k cl (fst (resume_all subs cl))"
  using assms
proof (induction subs arbitrary: cl)
  case Nil
  then show ?case by (simp add: unaffected_refl)
next
  case (Cons ks subs)
  obtain k' sub where ks: "ks = (k', sub)" by (cases ks)
  obtain sub' cl' where r: "resume (sub, cl) = (sub', cl')" by (cases "resume (sub, cl)")
  have key: "key_of (s_options sub) \<noteq> k" using Cons.prems by (auto simp: ks keyed_Cons)
  have u1: "unaffected k cl cl'" using resume_unaffected [OF key, of cl] r by simp
  obtain cl'' subs' where ra: "resume_all subs cl' = (cl'', subs')" by (cases "resume_all subs cl'")
  have u2: "unaffected k cl' cl''" using Cons.IH [of cl'] Cons.prems ra by (simp add: ks keyed_Cons)
  show ?case using unaffected_trans [OF u1 u2] by (simp add: ks r ra)
qed

lemma resume_all_at:
  assumes "keyed subs" "distinct (map fst subs)" "map_of subs k = Some sub"
  shows "\<exists>cl1 sub' cl2. unaffected k cl cl1 \<and> resume (sub, cl1) = (sub', cl2)
           \<and> unaffected k cl2 (fst (resume_all subs cl))
           \<and> map_of (snd (resume_all subs cl)) k = Some sub'"
  using assms
proof (induction subs arbitrary: cl)
  case Nil
  then show ?case by simp
next
  case (Cons ks subs)
  obtain k' sub0 where ks: "ks = (k', sub0)" by (cases ks)
  obtain sub0' cl' where r: "resume (sub0, cl) = (sub0', cl')" by (cases "resume (sub0, cl)")
  obtain cl'' subs' where ra: "resume_all subs cl' = (cl'', subs')" by (cases "resume_all subs cl'")
  have all: "resume_all (ks # subs) cl = (cl'', (k', sub0') # subs')" by (simp add: ks r ra)
  have kd: "keyed subs" using Cons.prems(1) by (simp add: ks keyed_Cons)
  show ?case
  proof (cases "k' = k")
    case True
    then have s: "sub0 = sub" using Cons.prems(3) by (simp add: ks)
    have "k \<notin> fst ` set subs" using Cons.prems(2) True by (simp add: ks)
    then have u2: "unaffected k cl' cl''" using resume_all_other [OF kd, of k cl'] ra by simp
    have "unaffected k cl cl \<and> resume (sub, cl) = (sub0', cl')
           \<and> unaffected k cl' (fst (resume_all (ks # subs) cl))
           \<and> map_of (snd (resume_all (ks # subs) cl)) k = Some sub0'"
      using u2 r s True unfolding all by (simp add: unaffected_refl)
    then show ?thesis by blast
  next
    case False
    have key: "key_of (s_options sub0) \<noteq> k" using Cons.prems(1) False by (simp add: ks keyed_Cons)
    have u1: "unaffected k cl cl'" using resume_unaffected [OF key, of cl] r by simp
    have m: "map_of subs k = Some sub" using Cons.prems(3) False by (simp add: ks)
    have d: "distinct (map fst subs)" using Cons.prems(2) by simp
    obtain cl1 sub' cl2 where a: "unaffected k cl' cl1" and b: "resume (sub, cl1) = (sub', cl2)"
      and c: "unaffected k cl2 (fst (resume_all subs cl'))"
      and e: "map_of (snd (resume_all subs cl')) k = Some sub'"
      using Cons.IH [OF kd d m, of cl'] by blast
    have "unaffected k cl cl1 \<and> resume (sub, cl1) = (sub', cl2)
           \<and> unaffected k cl2 (fst (resume_all (ks # subs) cl))
           \<and> map_of (snd (resume_all (ks # subs) cl)) k = Some sub'"
      using unaffected_trans [OF u1 a] b c e False unfolding all by (simp add: ra)
    then show ?thesis by blast
  qed
qed

lemma resume_all_None: "map_of (snd (resume_all subs cl)) k = None \<longleftrightarrow> map_of subs k = None"
  using resume_all_keys [of subs cl]
  by (metis list.set_map map_of_eq_None_iff)

text \<open>Every call and every inbound message keeps a client well formed.\<close>

lemma other_key: "\<exists>k'. key_of opts \<noteq> (k' :: key)"
proof -
  have "key_of opts \<noteq> (CHR ''x'' # fst (key_of opts), snd (key_of opts))"
    by (simp add: prod_eq_iff)
  then show ?thesis by blast
qed

lemma resume_grows:
  "sessionToken (snd (resume (sub, cl))) = sessionToken cl"
  "known_handlers (connection cl) \<Longrightarrow> known_handlers (connection (snd (resume (sub, cl))))"
proof -
  obtain k' where "key_of (s_options sub) \<noteq> k'" using other_key by blast
  then have u: "unaffected k' cl (snd (resume (sub, cl)))" by (rule resume_unaffected)
  show "sessionToken (snd (resume (sub, cl))) = sessionToken cl"
    using u by (simp add: unaffected_def)
  show "known_handlers (connection cl) \<Longrightarrow> known_handlers (connection (snd (resume (sub, cl))))"
    using u by (simp add: unaffected_def)
qed

lemma enqueue_grows:
  "sessionToken (snd (enqueue t (sub, cl))) = sessionToken cl"
  "known_handlers (connection cl) \<Longrightarrow> known_handlers (connection (snd (enqueue t (sub, cl))))"
  using resume_grows [where sub = "sub\<lparr>pending := pending sub @ [t]\<rparr>" and cl = cl]
  by (simp_all add: enqueue_def)

lemma resume_all_grows:
  "sessionToken (fst (resume_all subs cl)) = sessionToken cl
   \<and> (known_handlers (connection cl) \<longrightarrow> known_handlers (connection (fst (resume_all subs cl))))"
proof (induction subs arbitrary: cl)
  case Nil
  then show ?case by simp
next
  case (Cons ks subs)
  obtain k sub where ks: "ks = (k, sub)" by (cases ks)
  obtain sub' cl' where r: "resume (sub, cl) = (sub', cl')" by (cases "resume (sub, cl)")
  obtain cl'' subs' where ra: "resume_all subs cl' = (cl'', subs')" by (cases "resume_all subs cl'")
  show ?case
    using Cons.IH [of cl'] resume_grows [where sub = sub and cl = cl] by (simp add: ks r ra)
qed

lemma well_formed_step:
  assumes "well_formed token st"
  shows "well_formed token (step a st)"
proof -
  obtain cl subs where st: "st = (cl, subs)" by (cases st)
  have wf: "sessionToken cl = token" "known_handlers (connection cl)" "distinct (map fst subs)" "keyed subs"
    using assms by (simp_all add: well_formed_def st)
  have call: "well_formed token (snd (enqueue t (sub, cl)), AList.update k (fst (enqueue t (sub, cl))) subs)"
    if "key_of (s_options sub) = k" for t sub k
    using wf that enqueue_grows [where t = t and sub = sub and cl = cl] enqueue_options [of t sub cl]
    by (simp add: well_formed_def distinct_update keyed_update)
  show ?thesis
  proof (cases a)
    case (Call_subscribe v)
    show ?thesis
    proof (cases "validateOptions v")
      case (Inl e)
      then show ?thesis using assms Call_subscribe by (simp add: st Subscriptions_subscribe_def)
    next
      case (Inr opts)
      show ?thesis
      proof (cases "SubKey opts")
        case (Inl e)
        then show ?thesis using assms Call_subscribe Inr by (simp add: st Subscriptions_subscribe_def)
      next
        case (Inr k)
        then have ko: "key_of opts = k"
          by (auto simp: SubKey_def key_of_def opt_streamId_def split: option.splits)
        let ?sub = "case map_of subs k of Some s \<Rightarrow> s | None \<Rightarrow> new_Subscription opts"
        have "key_of (s_options ?sub) = k"
          using ko keyed_map_of [OF wf(4)] by (auto simp: new_Subscription_def split: option.splits)
        from call [OF this, of Subscribe] show ?thesis
          using Call_subscribe \<open>validateOptions v = Inr opts\<close> Inr
          by (simp add: st Subscriptions_subscribe_def Let_def case_prod_unfold)
      qed
    qed
  next
    case (Call_unsubscribe k)
    show ?thesis
    proof (cases "map_of subs k")
      case None
      then show ?thesis using assms Call_unsubscribe by (simp add: st Subscription_unsubscribe_def)
    next
      case (Some sub)
      have "key_of (s_options sub) = k" by (rule keyed_map_of [OF wf(4) Some])
      from call [OF this, of Unsubscribe] show ?thesis
        using Call_unsubscribe Some
        by (simp add: st Subscription_unsubscribe_def Let_def case_prod_unfold)
    qed
  next
    case (Receive res)
    let ?cl = "cl\<lparr>connection := emitMessage res (connection cl)\<rparr>"
    have "known_handlers (connection ?cl)" using wf(2) by (simp add: emitMessage_known)
    then show ?thesis
      using wf resume_all_grows [of subs ?cl] resume_all_keys [of subs ?cl] resume_all_keyed [OF wf(4), of ?cl]
      by (simp add: Receive st receive_def well_formed_def)
  qed
qed

lemma well_formed_new: "well_formed token (new_client token count, [])"
  by (simp add: well_formed_def new_client_def new_connection_known keyed_Nil)

lemma run_Nil: "run [] st = st"
  and run_Cons: "run (a # acts) st = run acts (step a st)"
  and run_append: "run (acts @ acts') st = run acts' (run acts st)"
  by (simp_all add: run_def)

lemma well_formed_run: "well_formed token st \<Longrightarrow> well_formed token (run acts st)"
  by (induction acts arbitrary: st) (simp_all add: run_Nil run_Cons well_formed_step del: step.simps)

subsection \<open>The Subscription of one key\<close>

text \<open>
  How the queue of the Subscription goes on: not at all while the promise of the running
  body is pending or when nothing is queued, and through all the queued bodies at once
  when the promise they share is resolved.
\<close>

lemma SubKey_key_of: "SubKey opts = Inr k \<Longrightarrow> key_of opts = k"
  by (auto simp: SubKey_def key_of_def opt_streamId_def split: option.splits)

lemma promise_of_waiting: "waiting w rid tys (connection cl) \<Longrightarrow> promise_of cl w = Pending"
  by (simp add: waiting_def promise_of_def)

lemma promise_of_settled: "settled w rid tys out (connection cl) \<Longrightarrow> promise_of cl w = out"
  by (simp add: settled_def promise_of_def)

lemma resume_awaiting:
  "active sub = Some (t, w) \<Longrightarrow> promise_of cl w = Pending \<Longrightarrow> resume (sub, cl) = (sub, cl)"
  by (simp add: resume_def)

lemma resume_quiet: "active sub = None \<Longrightarrow> pending sub = [] \<Longrightarrow> resume (sub, cl) = (sub, cl)"
  by (simp add: resume_def)

lemma run_queue_Subscribe:
  assumes "sendSubscribe_cache sub = Some w" "sendUnsubscribe_cache sub = None"
    and "promise_of cl w = Resolved res"
  shows "run_queue (replicate n Subscribe) (sub, cl)
     = (sub\<lparr>active := None, pending := [], streams := streams sub + n\<rparr>, cl)"
  using assms(1,2)
proof (induction n arbitrary: sub)
  case 0
  then show ?case by simp
next
  case (Suc n)
  have same: "sub\<lparr>sendUnsubscribe_cache := None\<rparr> = sub" using Suc.prems by simp
  have st: "start_task Subscribe (sub, cl) = (Inr w, sub, cl)"
    using Suc.prems by (simp add: sendSubscribe_def same)
  show ?case
    using Suc.IH [of "sub\<lparr>streams := streams sub + 1\<rparr>"] Suc.prems assms(3)
    by (simp add: st del: start_task.simps)
qed


lemma resume_Subscribe:
  assumes "active sub = Some (Subscribe, w)" "pending sub = replicate n Subscribe"
    and "sendSubscribe_cache sub = Some w" "sendUnsubscribe_cache sub = None"
    and "promise_of cl w = Resolved res"
  shows "resume (sub, cl) = (sub\<lparr>active := None, pending := [], streams := streams sub + Suc n\<rparr>, cl)"
  using assms run_queue_Subscribe [of "sub\<lparr>streams := streams sub + 1\<rparr>" w cl res n]
  by (simp add: resume_def)


lemma resume_all_same_client:
  assumes "keyed subs" "distinct (map fst subs)" "map_of subs k = Some sub"
    and "\<And>cl1. unaffected k cl cl1 \<Longrightarrow> resume (sub, cl1) = (sub', cl1)"
  shows "unaffected k cl (fst (resume_all subs cl)) \<and> map_of (snd (resume_all subs cl)) k = Some sub'"
proof -
  obtain cl1 sub2 cl2 where a: "unaffected k cl cl1" and b: "resume (sub, cl1) = (sub2, cl2)"
    and c: "unaffected k cl2 (fst (resume_all subs cl))"
    and e: "map_of (snd (resume_all subs cl)) k = Some sub2"
    using resume_all_at [OF assms(1-3), of cl] by blast
  have "sub2 = sub'" "cl2 = cl1" using assms(4) [OF a] b by simp_all
  then show ?thesis using unaffected_trans [OF a] c e by simp
qed

text \<open>The states of the key \<open>k\<close> depend on what the calls for other keys leave as it
  is, and on nothing else.\<close>

lemma no_subscription_unaffected:
  "no_subscription k (cl, subs) \<Longrightarrow> unaffected k cl cl' \<Longrightarrow> map_of subs' k = map_of subs k
   \<Longrightarrow> no_subscription k (cl', subs')"
  by (simp add: no_subscription_def unaffected_def)

lemma subscribing_unaffected:
  "subscribing k rid w n (cl, subs) \<Longrightarrow> unaffected k cl cl' \<Longrightarrow> map_of subs' k = map_of subs k
   \<Longrightarrow> subscribing k rid w n (cl', subs')"
  by (simp add: subscribing_def unaffected_def)

lemma subscribed_unaffected:
  "subscribed k rid w n (cl, subs) \<Longrightarrow> unaffected k cl cl' \<Longrightarrow> map_of subs' k = map_of subs k
   \<Longrightarrow> subscribed k rid w n (cl', subs')"
  unfolding subscribed_def unaffected_def by (elim conjE exE) (simp, blast)



lemma subscribe_other:
  assumes "well_formed token (cl, subs)" "\<not> subscribe_to k (Call_subscribe v)"
  shows "unaffected k cl (fst (step (Call_subscribe v) (cl, subs)))
       \<and> map_of (snd (step (Call_subscribe v) (cl, subs))) k = map_of subs k"
proof (cases "validateOptions v")
  case (Inl e)
  then show ?thesis by (simp add: Subscriptions_subscribe_def unaffected_refl)
next
  case (Inr opts)
  show ?thesis
  proof (cases "SubKey opts")
    case (Inl e)
    then show ?thesis using Inr by (simp add: Subscriptions_subscribe_def unaffected_refl)
  next
    case k': (Inr k')
    have ne: "k' \<noteq> k" using assms(2) Inr k' by auto
    have kd: "keyed subs" using assms(1) by (simp add: well_formed_def)
    let ?sub = "case map_of subs k' of Some s \<Rightarrow> s | None \<Rightarrow> new_Subscription opts"
    have "key_of (s_options ?sub) = k'"
      using SubKey_key_of [OF k'] keyed_map_of [OF kd]
      by (auto simp: new_Subscription_def split: option.splits)
    then have "key_of (s_options ?sub) \<noteq> k" using ne by simp
    then have "unaffected k cl (snd (enqueue Subscribe (?sub, cl)))" by (rule enqueue_unaffected)
    then show ?thesis
      using Inr k' ne
      by (simp add: Subscriptions_subscribe_def Let_def case_prod_unfold update_conv')
  qed
qed

lemma unsubscribe_other:
  assumes "well_formed token (cl, subs)" "k' \<noteq> k"
  shows "unaffected k cl (fst (step (Call_unsubscribe k') (cl, subs)))
       \<and> map_of (snd (step (Call_unsubscribe k') (cl, subs))) k = map_of subs k"
proof (cases "map_of subs k'")
  case None
  then show ?thesis by (simp add: Subscription_unsubscribe_def unaffected_refl)
next
  case (Some sub)
  have kd: "keyed subs" using assms(1) by (simp add: well_formed_def)
  have "key_of (s_options sub) \<noteq> k" using keyed_map_of [OF kd Some] assms(2) by simp
  then have "unaffected k cl (snd (enqueue Unsubscribe (sub, cl)))" by (rule enqueue_unaffected)
  then show ?thesis
    using Some assms(2)
    by (simp add: Subscription_unsubscribe_def Let_def case_prod_unfold update_conv')
qed

text \<open>An inbound message: the waiter of \<open>k\<close> is settled when the message is the one it
  awaits and stays as it is otherwise, and the Subscription of \<open>k\<close> goes on accordingly.\<close>

lemma receive_no_subscription:
  assumes "well_formed token (cl, subs)" "no_subscription k (cl, subs)"
  shows "no_subscription k (step (Receive res) (cl, subs))"
proof -
  let ?cl = "cl\<lparr>connection := emitMessage res (connection cl)\<rparr>"
  have kd: "keyed subs" using assms(1) by (simp add: well_formed_def)
  have "k \<notin> fst ` set subs" using assms(2) by (simp add: no_subscription_def map_of_eq_None_iff)
  then have u: "unaffected k ?cl (fst (resume_all subs ?cl))" by (rule resume_all_other [OF kd])
  have n: "map_of (snd (resume_all subs ?cl)) k = None"
    using assms(2) by (simp add: resume_all_None no_subscription_def)
  show ?thesis
    using assms(2) u n by (simp add: receive_def no_subscription_def unaffected_def)
qed

lemma receive_at:
  assumes wf: "well_formed token (cl, subs)" and m: "map_of subs k = Some sub"
    and r: "\<And>cl1. unaffected k (cl\<lparr>connection := emitMessage res (connection cl)\<rparr>) cl1
              \<Longrightarrow> resume (sub, cl1) = (sub', cl1)"
  shows "\<exists>cl' subs'. step (Receive res) (cl, subs) = (cl', subs')
           \<and> unaffected k (cl\<lparr>connection := emitMessage res (connection cl)\<rparr>) cl'
           \<and> map_of subs' k = Some sub'"
proof -
  let ?cl = "cl\<lparr>connection := emitMessage res (connection cl)\<rparr>"
  have kd: "keyed subs" and d: "distinct (map fst subs)" using wf by (simp_all add: well_formed_def)
  have "unaffected k ?cl (fst (resume_all subs ?cl)) \<and> map_of (snd (resume_all subs ?cl)) k = Some sub'"
    by (rule resume_all_same_client [OF kd d m r])
  then show ?thesis
    by (cases "resume_all subs ?cl") (simp add: receive_def)
qed

lemma receive_subscribing:
  assumes wf: "well_formed token (cl, subs)" and s: "subscribing k rid w n (cl, subs)"
    and nr: "\<not> rejects rid (Receive res)"
  shows "if awaited [TYPES_SubscribeResponse] rid res
         then subscribed k rid w (Suc n) (step (Receive res) (cl, subs))
         else subscribing k rid w n (step (Receive res) (cl, subs))"
proof -
  let ?c = "emitMessage res (connection cl)"
  let ?cl = "cl\<lparr>connection := ?c\<rparr>"
  from s obtain sub where m: "map_of subs k = Some sub"
    and sub: "sendSubscribe_cache sub = Some w" "sendUnsubscribe_cache sub = None"
      "active sub = Some (Subscribe, w)" "pending sub = replicate n Subscribe"
      "streams sub = 0" "rejected sub = 0"
    and wt: "waiting w rid [TYPES_SubscribeResponse] (connection cl)"
    and rq: "subscribe_requests k (sent cl) = [SubscribeRequest (fst k) (snd k) (sessionToken cl) rid]"
      "unsubscribe_requests k (sent cl) = []"
    unfolding subscribing_def by auto
  show ?thesis
  proof (cases "awaited [TYPES_SubscribeResponse] rid res")
    case True
    then have ty: "res_type res = TYPES_SubscribeResponse"
      using nr by (auto simp: awaited_def)
    have st: "settled w rid [TYPES_SubscribeResponse] (Resolved res) ?c"
      using emitMessage_awaited [OF wt True] ty by simp
    let ?sub' = "sub\<lparr>active := None, pending := [], streams := streams sub + Suc n\<rparr>"
    have r: "resume (sub, cl1) = (?sub', cl1)" if "unaffected k ?cl cl1" for cl1
    proof -
      have "settled w rid [TYPES_SubscribeResponse] (Resolved res) (connection cl1)"
        using that st by (simp add: unaffected_def)
      then have "promise_of cl1 w = Resolved res" by (rule promise_of_settled)
      then show ?thesis by (rule resume_Subscribe [OF sub(3,4,1,2)])
    qed
    obtain cl' subs' where step: "step (Receive res) (cl, subs) = (cl', subs')"
      and u: "unaffected k ?cl cl'" and m': "map_of subs' k = Some ?sub'"
      using receive_at [OF wf m r] by blast
    have "settled w rid [TYPES_SubscribeResponse] (Resolved res) (connection cl')"
      using u st by (simp add: unaffected_def)
    then have "subscribed k rid w (Suc n) (cl', subs')"
      using u rq m' sub unfolding subscribed_def unaffected_def by auto
    then show ?thesis using True step by simp
  next
    case False
    have wt': "waiting w rid [TYPES_SubscribeResponse] ?c"
      by (rule emitMessage_not_awaited [OF wt False])
    have r: "resume (sub, cl1) = (sub, cl1)" if "unaffected k ?cl cl1" for cl1
    proof -
      have "waiting w rid [TYPES_SubscribeResponse] (connection cl1)"
        using that wt' by (simp add: unaffected_def)
      then have "promise_of cl1 w = Pending" by (rule promise_of_waiting)
      then show ?thesis by (rule resume_awaiting [OF sub(3)])
    qed
    obtain cl' subs' where step: "step (Receive res) (cl, subs) = (cl', subs')"
      and u: "unaffected k ?cl cl'" and m': "map_of subs' k = Some sub"
      using receive_at [OF wf m r] by blast
    have "waiting w rid [TYPES_SubscribeResponse] (connection cl')"
      using u wt' by (simp add: unaffected_def)
    then have "subscribing k rid w n (cl', subs')"
      using u rq m' sub unfolding subscribing_def unaffected_def by auto
    then show ?thesis using False step by simp
  qed
qed

lemma receive_subscribed:
  assumes wf: "well_formed token (cl, subs)" and s: "subscribed k rid w n (cl, subs)"
  shows "subscribed k rid w n (step (Receive res) (cl, subs))"
proof -
  let ?c = "emitMessage res (connection cl)"
  let ?cl = "cl\<lparr>connection := ?c\<rparr>"
  from s obtain sub r0 where m: "map_of subs k = Some sub"
    and sub: "sendSubscribe_cache sub = Some w" "sendUnsubscribe_cache sub = None"
      "active sub = None" "pending sub = []" "streams sub = n" "rejected sub = 0"
    and st0: "settled w rid [TYPES_SubscribeResponse] (Resolved r0) (connection cl)"
    and rq: "subscribe_requests k (sent cl) = [SubscribeRequest (fst k) (snd k) (sessionToken cl) rid]"
      "unsubscribe_requests k (sent cl) = []"
    unfolding subscribed_def by auto
  have st: "settled w rid [TYPES_SubscribeResponse] (Resolved r0) ?c"
    using st0 by (simp add: emitMessage_def emit_settled)
  have r: "resume (sub, cl1) = (sub, cl1)" for cl1
    by (rule resume_quiet [OF sub(3,4)])
  obtain cl' subs' where step: "step (Receive res) (cl, subs) = (cl', subs')"
    and u: "unaffected k ?cl cl'" and m': "map_of subs' k = Some sub"
    using receive_at [OF wf m r] by blast
  have "settled w rid [TYPES_SubscribeResponse] (Resolved r0) (connection cl')"
    using u st by (simp add: unaffected_def)
  then have "subscribed k rid w n (cl', subs')"
    using u rq m' sub unfolding subscribed_def unaffected_def by auto
  then show ?thesis using step by simp
qed



text \<open>The calls for \<open>k\<close> itself: the first \<^verbatim>\<open>subscribe\<close> and the first
  \<^verbatim>\<open>unsubscribe\<close> send the request, the later ones wait in the queue or return at
  once.\<close>

lemma subscribe_first:
  assumes wf: "well_formed token (cl, subs)" and n: "no_subscription k (cl, subs)"
    and a: "subscribe_to k (Call_subscribe v)"
  shows "subscribing k (uuid_count cl) (length (waiters (connection cl))) 0
           (step (Call_subscribe v) (cl, subs))"
proof -
  obtain opts where v: "validateOptions v = Inr opts" and sk: "SubKey opts = Inr k"
    using a by (auto split: sum.splits)
  have ko: "key_of opts = k" by (rule SubKey_key_of [OF sk])
  have none: "map_of subs k = None" using n by (simp add: no_subscription_def)
  let ?w = "length (waiters (connection cl))"
  obtain cl' where r: "subscribe opts cl = Inr (?w, cl')"
    and c: "connection cl' = snd (waitForResponse [TYPES_SubscribeResponse] (uuid_count cl) (connection cl))"
    and s: "sent cl' = sent cl @ [SubscribeRequest (fst (key_of opts)) (snd (key_of opts))
               (sessionToken cl) (uuid_count cl)]"
    and t: "sessionToken cl' = sessionToken cl"
    using subscribe_result [of opts cl] by blast
  have kn: "known_handlers (connection cl)" using wf by (simp add: well_formed_def)
  have wt: "waiting ?w (uuid_count cl) [TYPES_SubscribeResponse] (connection cl')"
    unfolding c by (rule waitForResponse_waiting [OF kn])
  have p: "promise_of cl' ?w = Pending" by (rule promise_of_waiting [OF wt])
  let ?sub = "(new_Subscription opts)\<lparr>sendSubscribe_cache := Some ?w, active := Some (Subscribe, ?w)\<rparr>"
  have e: "enqueue Subscribe (new_Subscription opts, cl) = (?sub, cl')"
    using r p by (simp add: enqueue_def resume_def new_Subscription_def sendSubscribe_def)
  have step: "step (Call_subscribe v) (cl, subs) = (cl', AList.update k ?sub subs)"
    using v sk none e by (simp add: Subscriptions_subscribe_def)
  show ?thesis
    unfolding step using wt n s t ko
    by (simp add: subscribing_def no_subscription_def subscribe_requests_def unsubscribe_requests_def
        update_conv' new_Subscription_def)
qed

lemma subscribe_again_subscribing:
  assumes s: "subscribing k rid w n (cl, subs)" and a: "subscribe_to k (Call_subscribe v)"
  shows "subscribing k rid w (Suc n) (step (Call_subscribe v) (cl, subs))"
proof -
  obtain opts where v: "validateOptions v = Inr opts" and sk: "SubKey opts = Inr k"
    using a by (auto split: sum.splits)
  from s obtain sub where m: "map_of subs k = Some sub"
    and sub: "sendSubscribe_cache sub = Some w" "sendUnsubscribe_cache sub = None"
      "active sub = Some (Subscribe, w)" "pending sub = replicate n Subscribe"
      "streams sub = 0" "rejected sub = 0"
    and wt: "waiting w rid [TYPES_SubscribeResponse] (connection cl)"
    unfolding subscribing_def by auto
  have p: "promise_of cl w = Pending" by (rule promise_of_waiting [OF wt])
  let ?sub = "sub\<lparr>pending := replicate (Suc n) Subscribe\<rparr>"
  have e: "enqueue Subscribe (sub, cl) = (?sub, cl)"
    using sub p by (simp add: enqueue_def resume_def replicate_append_same)
  have step: "step (Call_subscribe v) (cl, subs) = (cl, AList.update k ?sub subs)"
    using v sk m e by (simp add: Subscriptions_subscribe_def)
  show ?thesis
    unfolding step using s sub by (simp add: subscribing_def update_conv')
qed

lemma subscribe_again_subscribed:
  assumes s: "subscribed k rid w n (cl, subs)" and a: "subscribe_to k (Call_subscribe v)"
  shows "subscribed k rid w (Suc n) (step (Call_subscribe v) (cl, subs))"
proof -
  obtain opts where v: "validateOptions v = Inr opts" and sk: "SubKey opts = Inr k"
    using a by (auto split: sum.splits)
  from s obtain sub r0 where m: "map_of subs k = Some sub"
    and sub: "sendSubscribe_cache sub = Some w" "sendUnsubscribe_cache sub = None"
      "active sub = None" "pending sub = []" "streams sub = n" "rejected sub = 0"
    and st0: "settled w rid [TYPES_SubscribeResponse] (Resolved r0) (connection cl)"
    unfolding subscribed_def by auto
  have p: "promise_of cl w = Resolved r0" by (rule promise_of_settled [OF st0])
  let ?sub = "sub\<lparr>streams := Suc n\<rparr>"
  have "run_queue (replicate 1 Subscribe) (sub\<lparr>pending := [Subscribe]\<rparr>, cl)
      = (sub\<lparr>pending := [Subscribe]\<rparr>\<lparr>active := None, pending := [],
            streams := streams (sub\<lparr>pending := [Subscribe]\<rparr>) + 1\<rparr>, cl)"
    by (rule run_queue_Subscribe [where w = w and res = r0]) (use sub p in simp_all)
  then have e: "enqueue Subscribe (sub, cl) = (?sub, cl)"
    using sub by (simp add: enqueue_def resume_def del: run_queue.simps)
  have step: "step (Call_subscribe v) (cl, subs) = (cl, AList.update k ?sub subs)"
    using v sk m e by (simp add: Subscriptions_subscribe_def)
  show ?thesis
    unfolding step using s sub by (simp add: subscribed_def update_conv')
qed





text \<open>So every action takes a state of \<open>k\<close> to the same or to the next state, and every
  sequence of actions does.\<close>

lemma step_no_subscription:
  assumes wf: "well_formed token st" and n: "no_subscription k st" and a: "\<not> subscribe_to k a"
  shows "no_subscription k (step a st)"
proof -
  obtain cl subs where st: "st = (cl, subs)" by (cases st)
  note wf' = wf [unfolded st] and n' = n [unfolded st]
  show ?thesis
  proof (cases a)
    case (Call_subscribe v)
    have "no_subscription k (fst (step a (cl, subs)), snd (step a (cl, subs)))"
      using subscribe_other [OF wf' a [unfolded Call_subscribe]] unfolding Call_subscribe
      by (intro no_subscription_unaffected [OF n']) simp_all
    then show ?thesis by (simp add: st)
  next
    case (Call_unsubscribe k')
    show ?thesis
    proof (cases "k' = k")
      case True
      then show ?thesis
        using n' by (simp add: Call_unsubscribe st Subscription_unsubscribe_def no_subscription_def)
    next
      case False
      have "no_subscription k (fst (step a (cl, subs)), snd (step a (cl, subs)))"
        using unsubscribe_other [OF wf' False] unfolding Call_unsubscribe
        by (intro no_subscription_unaffected [OF n']) simp_all
      then show ?thesis by (simp add: st)
    qed
  next
    case (Receive res)
    then show ?thesis using receive_no_subscription [OF wf' n'] by (simp add: st)
  qed
qed

lemma step_subscribing:
  assumes wf: "well_formed token st" and s: "subscribing k rid w n st"
    and a: "a \<noteq> Call_unsubscribe k" "\<not> rejects rid a"
  shows "subscribing k rid w (n + (if subscribe_to k a then 1 else 0)) (step a st)
       \<or> subscribed k rid w (Suc (n + (if subscribe_to k a then 1 else 0))) (step a st)"
proof -
  obtain cl subs where st: "st = (cl, subs)" by (cases st)
  note wf' = wf [unfolded st] and s' = s [unfolded st]
  show ?thesis
  proof (cases a)
    case (Call_subscribe v)
    show ?thesis
    proof (cases "subscribe_to k a")
      case True
      then show ?thesis
        using subscribe_again_subscribing [OF s', of v] by (simp add: Call_subscribe st)
    next
      case False
      have "subscribing k rid w n (fst (step a (cl, subs)), snd (step a (cl, subs)))"
        using subscribe_other [OF wf' False [unfolded Call_subscribe]] unfolding Call_subscribe
        by (intro subscribing_unaffected [OF s']) simp_all
      then show ?thesis using False by (simp add: st)
    qed
  next
    case (Call_unsubscribe k')
    then have ne: "k' \<noteq> k" using a(1) by simp
    have "subscribing k rid w n (fst (step a (cl, subs)), snd (step a (cl, subs)))"
      using unsubscribe_other [OF wf' ne] unfolding Call_unsubscribe
      by (intro subscribing_unaffected [OF s']) simp_all
    then show ?thesis by (simp add: st Call_unsubscribe)
  next
    case (Receive res)
    show ?thesis
      using receive_subscribing [OF wf' s' a(2) [unfolded Receive]]
      by (cases "awaited [TYPES_SubscribeResponse] rid res") (simp_all add: Receive st)
  qed
qed

lemma step_subscribed:
  assumes wf: "well_formed token st" and s: "subscribed k rid w n st"
    and a: "a \<noteq> Call_unsubscribe k"
  shows "subscribed k rid w (n + (if subscribe_to k a then 1 else 0)) (step a st)"
proof -
  obtain cl subs where st: "st = (cl, subs)" by (cases st)
  note wf' = wf [unfolded st] and s' = s [unfolded st]
  show ?thesis
  proof (cases a)
    case (Call_subscribe v)
    show ?thesis
    proof (cases "subscribe_to k a")
      case True
      then show ?thesis
        using subscribe_again_subscribed [OF s', of v] by (simp add: Call_subscribe st)
    next
      case False
      have "subscribed k rid w n (fst (step a (cl, subs)), snd (step a (cl, subs)))"
        using subscribe_other [OF wf' False [unfolded Call_subscribe]] unfolding Call_subscribe
        by (intro subscribed_unaffected [OF s']) simp_all
      then show ?thesis using False by (simp add: st)
    qed
  next
    case (Call_unsubscribe k')
    then have ne: "k' \<noteq> k" using a by simp
    have "subscribed k rid w n (fst (step a (cl, subs)), snd (step a (cl, subs)))"
      using unsubscribe_other [OF wf' ne] unfolding Call_unsubscribe
      by (intro subscribed_unaffected [OF s']) simp_all
    then show ?thesis by (simp add: st Call_unsubscribe)
  next
    case (Receive res)
    show ?thesis
      using receive_subscribed [OF wf' s', of res] by (simp add: Receive st)
  qed
qed



lemma subscribe_calls_Nil: "subscribe_calls k [] = 0"
  and subscribe_calls_Cons:
    "subscribe_calls k (a # acts) = (if subscribe_to k a then 1 else 0) + subscribe_calls k acts"
  by (simp_all add: subscribe_calls_def)

lemma run_no_subscription:
  assumes "well_formed token st" "no_subscription k st" "list_all (\<lambda>a. \<not> subscribe_to k a) acts"
  shows "no_subscription k (run acts st)"
  using assms
proof (induction acts arbitrary: st)
  case Nil
  then show ?case by (simp add: run_Nil)
next
  case (Cons a acts)
  have "no_subscription k (run acts (step a st))"
    by (rule Cons.IH [OF well_formed_step [OF Cons.prems(1)]
          step_no_subscription [OF Cons.prems(1,2)]]) (use Cons.prems(3) in simp_all)
  then show ?case by (simp add: run_Cons del: step.simps)
qed

lemma run_subscribed:
  assumes "well_formed token st" "subscribed k rid w n st"
    and "list_all (\<lambda>a. a \<noteq> Call_unsubscribe k) acts"
  shows "subscribed k rid w (n + subscribe_calls k acts) (run acts st)"
  using assms
proof (induction acts arbitrary: st n)
  case Nil
  then show ?case by (simp add: run_Nil subscribe_calls_Nil)
next
  case (Cons a acts)
  have a: "a \<noteq> Call_unsubscribe k" and rest: "list_all (\<lambda>a. a \<noteq> Call_unsubscribe k) acts"
    using Cons.prems(3) by simp_all
  have "subscribed k rid w (n + (if subscribe_to k a then 1 else 0) + subscribe_calls k acts)
          (run acts (step a st))"
    by (rule Cons.IH [OF well_formed_step [OF Cons.prems(1)]
          step_subscribed [OF Cons.prems(1,2) a] rest])
  then show ?case by (simp add: run_Cons subscribe_calls_Cons add.assoc del: step.simps)
qed

lemma run_subscribing:
  assumes "well_formed token st" "subscribing k rid w n st"
    and "list_all (\<lambda>a. a \<noteq> Call_unsubscribe k \<and> \<not> rejects rid a) acts"
  shows "subscribing k rid w (n + subscribe_calls k acts) (run acts st)
       \<or> subscribed k rid w (Suc (n + subscribe_calls k acts)) (run acts st)"
  using assms
proof (induction acts arbitrary: st n)
  case Nil
  then show ?case by (simp add: run_Nil subscribe_calls_Nil)
next
  case (Cons a acts)
  have a: "a \<noteq> Call_unsubscribe k" "\<not> rejects rid a"
    and rest: "list_all (\<lambda>a. a \<noteq> Call_unsubscribe k \<and> \<not> rejects rid a) acts"
    using Cons.prems(3) by simp_all
  have rest': "list_all (\<lambda>a. a \<noteq> Call_unsubscribe k) acts"
    using rest by (simp add: list_all_iff)
  let ?n = "n + (if subscribe_to k a then 1 else 0)"
  have wf: "well_formed token (step a st)" by (rule well_formed_step [OF Cons.prems(1)])
  from step_subscribing [OF Cons.prems(1,2) a]
  show ?case
  proof
    assume "subscribing k rid w ?n (step a st)"
    from Cons.IH [OF wf this rest] show ?thesis
      by (simp add: run_Cons subscribe_calls_Cons add.assoc del: step.simps)
  next
    assume "subscribed k rid w (Suc ?n) (step a st)"
    from run_subscribed [OF wf this rest'] show ?thesis
      by (simp add: run_Cons subscribe_calls_Cons add.assoc del: step.simps)
  qed
qed



lemma no_subscription_new: "no_subscription k (new_client token count, [])"
  by (simp add: no_subscription_def new_client_def subscribe_requests_def unsubscribe_requests_def)

lemma subscribingD:
  assumes "subscribing k rid w n st" "well_formed token st"
  shows "subscribe_requests k (sent (fst st)) = [SubscribeRequest (fst k) (snd k) token rid]"
  using assms by (simp add: subscribing_def well_formed_def)

lemma subscribedD:
  assumes "subscribed k rid w n st" "well_formed token st"
  shows "subscribe_requests k (sent (fst st)) = [SubscribeRequest (fst k) (snd k) token rid]"
    and "unsubscribe_requests k (sent (fst st)) = []"
    and "\<exists>sub. map_of (snd st) k = Some sub \<and> streams sub = n \<and> rejected sub = 0
            \<and> active sub = None \<and> pending sub = []"
  using assms by (auto simp: subscribed_def well_formed_def)



lemma run_to_subscribing:
  assumes pre: "list_all (\<lambda>a. \<not> subscribe_to k a) pre" and a: "subscribe_to k a"
  shows "\<exists>w. subscribing k (uuid_count (fst (run pre (new_client token count, [])))) w 0
               (run (pre @ [a]) (new_client token count, []))"
proof -
  let ?s0 = "run pre (new_client token count, [])"
  obtain cl0 subs0 where s0: "?s0 = (cl0, subs0)" by (cases ?s0)
  have wf0: "well_formed token (cl0, subs0)"
    using well_formed_run [OF well_formed_new [of token count], of pre]
    by (simp add: s0)
  have n0: "no_subscription k (cl0, subs0)"
    using run_no_subscription [OF well_formed_new [of token count] no_subscription_new pre]
    by (simp add: s0)
  obtain v where v: "a = Call_subscribe v" using a by (cases a) simp_all
  have "subscribing k (uuid_count cl0) (length (waiters (connection cl0))) 0 (step a (cl0, subs0))"
    using subscribe_first [OF wf0 n0 a [unfolded v]] by (simp add: v)
  then show ?thesis
    by (auto simp add: run_append run_Cons run_Nil s0 simp del: step.simps)
qed

lemma run_to_subscribed:
  assumes pre: "list_all (\<lambda>a. \<not> subscribe_to k a) pre" and a: "subscribe_to k a"
    and rid: "requestId = uuid_count (fst (run pre (new_client token count, [])))"
    and acts: "list_all (\<lambda>a. a \<noteq> Call_unsubscribe k \<and> \<not> rejects requestId a) acts"
    and res: "res_type res = TYPES_SubscribeResponse" "res_requestId res = Some requestId"
  shows "\<exists>w. (subscribing k requestId w (subscribe_calls k acts)
                 (run (pre @ a # acts) (new_client token count, []))
             \<or> subscribed k requestId w (Suc (subscribe_calls k acts))
                 (run (pre @ a # acts) (new_client token count, [])))
           \<and> subscribed k requestId w (Suc (subscribe_calls k acts))
               (run (pre @ a # acts @ [Receive res]) (new_client token count, []))"
proof -
  let ?new = "(new_client token count, [])"
  obtain w where s1: "subscribing k requestId w 0 (run (pre @ [a]) ?new)"
    using run_to_subscribing [OF pre a, of token count] rid by blast
  have wf1: "well_formed token (run (pre @ [a]) ?new)"
    by (rule well_formed_run [OF well_formed_new])
  let ?st = "run (pre @ a # acts) ?new"
  have st: "?st = run acts (run (pre @ [a]) ?new)"
    by (simp add: run_append run_Cons run_Nil del: step.simps)
  have wf: "well_formed token ?st"
    by (rule well_formed_run [OF well_formed_new])
  have d: "subscribing k requestId w (subscribe_calls k acts) ?st
         \<or> subscribed k requestId w (Suc (subscribe_calls k acts)) ?st"
    using run_subscribing [OF wf1 s1 acts] unfolding st by simp
  have aw: "awaited [TYPES_SubscribeResponse] requestId res"
    using res by (simp add: awaited_def)
  have nr: "\<not> rejects requestId (Receive res)" using res by simp
  have fin: "run (pre @ a # acts @ [Receive res]) ?new = step (Receive res) ?st"
    by (simp add: run_append run_Cons run_Nil del: step.simps)
  obtain cl subs where pair: "?st = (cl, subs)" by (cases ?st)
  from d have "subscribed k requestId w (Suc (subscribe_calls k acts)) (step (Receive res) ?st)"
  proof
    assume "subscribing k requestId w (subscribe_calls k acts) ?st"
    then show ?thesis
      using receive_subscribing [OF wf [unfolded pair] _ nr] aw unfolding pair by simp
  next
    assume "subscribed k requestId w (Suc (subscribe_calls k acts)) ?st"
    then show ?thesis
      using step_subscribed [OF wf, of k requestId w _ "Receive res"] by simp
  qed
  then show ?thesis using d unfolding fin by blast
qed

text \<open>The definitions that evaluate a sequence of given actions on a given client.\<close>

lemmas run_eval =
  run_def Subscriptions_subscribe_def Subscription_unsubscribe_def validateOptions_def SubKey_def
  enqueue_def resume_def new_Subscription_def sendSubscribe_def sendUnsubscribe_def subscribe_def
  unsubscribe_def send_request_def waitForRequestResponse_def PAIRS_def waitForResponse_def on_def
  new_client_def new_connection_def promise_of_def Let_def receive_def emitMessage_def emit_def
  response_def settle_def cleanup_def off_def opt_streamId_def opt_streamPartition_def no_options_def

text \<open>
  C1, as the claim states it, fails. \<^verbatim>\<open>Subscriptions.subscribe('s1')\<close> is called twice
  on a new client and the broker answers the SubscribeRequest with an ErrorResponse:
  \<^verbatim>\<open>pMemoize\<close> drops the rejected promise, the queue goes on to the body of the second
  call, and that sends a second SubscribeRequest for the same key.
\<close>

theorem second_SubscribeRequest_after_ErrorResponse:
  "sent (fst (run [Call_subscribe (JString ''s1''), Call_subscribe (JString ''s1''),
                   Receive (response TYPES_ErrorResponse 0)]
                (new_client ''session-token'' 0, [])))
     = [SubscribeRequest ''s1'' (Partition 0) ''session-token'' 0,
        SubscribeRequest ''s1'' (Partition 0) ''session-token'' 1]"
  by (simp add: run_eval)

text \<open>
  C1, amended. A client has done anything but call \<^verbatim>\<open>Subscriptions.subscribe\<close> for the
  key \<open>k\<close> (\<open>pre\<close>). Then it is called for \<open>k\<close>, and the SubscribeRequest it sends gets the
  request id \<open>requestId\<close>. After that anything may happen (\<open>acts\<close>), any number of further
  calls for \<open>k\<close>, calls and unsubscribes for other keys, inbound messages of any kind,
  ErrorResponses to other requests among them, in any order, except that the
  Subscription of \<open>k\<close> is not unsubscribed and that no ErrorResponse to the request
  \<open>requestId\<close> arrives. Then exactly one SubscribeRequest for \<open>k\<close> has been sent, at every
  such moment. And once the SubscribeResponse to it has been received (again, if it had been
  before), still no other has been sent and every call for \<open>k\<close> has returned: the
  Subscription of \<open>k\<close> has one iterator per call, no call was rejected and none is running
  or waiting.
\<close>

theorem one_SubscribeRequest_per_key:
  assumes "list_all (\<lambda>a. \<not> subscribe_to k a) pre"
    and "subscribe_to k a"
    and "requestId = uuid_count (fst (run pre (new_client token count, [])))"
    and "list_all (\<lambda>a. a \<noteq> Call_unsubscribe k \<and> \<not> rejects requestId a) acts"
    and "res_type res = TYPES_SubscribeResponse" and "res_requestId res = Some requestId"
  shows "subscribe_requests k (sent (fst (run pre (new_client token count, [])))) = []
       \<and> subscribe_requests k (sent (fst (run (pre @ a # acts) (new_client token count, []))))
           = [SubscribeRequest (fst k) (snd k) token requestId]
       \<and> (let st = run (pre @ a # acts @ [Receive res]) (new_client token count, [])
          in subscribe_requests k (sent (fst st)) = [SubscribeRequest (fst k) (snd k) token requestId]
           \<and> (\<exists>sub. map_of (snd st) k = Some sub
                  \<and> streams sub = Suc (subscribe_calls k acts) \<and> rejected sub = 0
                  \<and> active sub = None \<and> pending sub = []))"
proof -
  let ?new = "(new_client token count, [])"
  have n0: "no_subscription k (run pre ?new)"
    by (rule run_no_subscription [OF well_formed_new no_subscription_new assms(1)])
  obtain w where d: "subscribing k requestId w (subscribe_calls k acts) (run (pre @ a # acts) ?new)
             \<or> subscribed k requestId w (Suc (subscribe_calls k acts)) (run (pre @ a # acts) ?new)"
    and s: "subscribed k requestId w (Suc (subscribe_calls k acts))
               (run (pre @ a # acts @ [Receive res]) ?new)"
    using run_to_subscribed [OF assms] by blast
  have wf: "well_formed token (run xs ?new)" for xs
    by (rule well_formed_run [OF well_formed_new])
  have one: "subscribe_requests k (sent (fst (run (pre @ a # acts) ?new)))
      = [SubscribeRequest (fst k) (snd k) token requestId]"
    using d subscribingD [OF _ wf] subscribedD(1) [OF _ wf] by blast
  show ?thesis
    using n0 one subscribedD(1,3) [OF s wf] unfolding Let_def
    by (simp add: no_subscription_def)
qed

text \<open>
  The theorem on a client whose next request id is 5: a subscribe for another stream
  that the broker refuses comes first, then three calls for the stream \<^verbatim>\<open>s1\<close>, by its
  id and by an options object, with another refused subscribe for the other stream
  between them.
\<close>

theorem one_SubscribeRequest_per_key_witness:
  "list_all (\<lambda>a. \<not> subscribe_to (''s1'', Partition 0) a) trace_before
   \<and> subscribe_to (''s1'', Partition 0) (Call_subscribe (JString ''s1''))
   \<and> 6 = uuid_count (fst (run trace_before (new_client ''session-token'' 5, [])))
   \<and> list_all (\<lambda>a. a \<noteq> Call_unsubscribe (''s1'', Partition 0) \<and> \<not> rejects 6 a) trace_after
   \<and> subscribe_calls (''s1'', Partition 0) trace_after = 2
   \<and> subscribe_requests (''s1'', Partition 0)
        (sent (fst (run (trace_before @ Call_subscribe (JString ''s1'') # trace_after)
                      (new_client ''session-token'' 5, []))))
       = [SubscribeRequest ''s1'' (Partition 0) ''session-token'' 6]
   \<and> (\<exists>sub. map_of (snd (run (trace_before @ Call_subscribe (JString ''s1'') # trace_after
                                 @ [Receive (response TYPES_SubscribeResponse 6)])
                              (new_client ''session-token'' 5, []))) (''s1'', Partition 0) = Some sub
          \<and> streams sub = 3 \<and> rejected sub = 0 \<and> active sub = None \<and> pending sub = [])"
proof -
  let ?k = "(''s1'', Partition 0)"
  have h1: "list_all (\<lambda>a. \<not> subscribe_to ?k a) trace_before"
    by (simp add: trace_before_def validateOptions_def SubKey_def no_options_def)
  have h2: "subscribe_to ?k (Call_subscribe (JString ''s1''))"
    by (simp add: validateOptions_def SubKey_def no_options_def opt_streamPartition_def)
  have h3: "6 = uuid_count (fst (run trace_before (new_client ''session-token'' 5, [])))"
    by (simp add: trace_before_def run_eval)
  have h4: "list_all (\<lambda>a. a \<noteq> Call_unsubscribe ?k \<and> \<not> rejects 6 a) trace_after"
    by (simp add: trace_after_def response_def)
  have h5: "res_type (response TYPES_SubscribeResponse 6) = TYPES_SubscribeResponse"
    and h6: "res_requestId (response TYPES_SubscribeResponse 6) = Some 6"
    by (simp_all add: response_def)
  have n: "subscribe_calls ?k trace_after = 2"
    by (simp add: subscribe_calls_def trace_after_def validateOptions_def SubKey_def no_options_def
        opt_streamPartition_def)
  show ?thesis
    using h1 h2 h3 h4 n one_SubscribeRequest_per_key [OF h1 h2 h3 h4 h5 h6]
    unfolding Let_def by simp
qed

subsection \<open>Unsubscribing twice\<close>









section \<open>Properties of message streams and Subscriptions.resend\<close>

text \<open>
  C8. The claim: a UnicastMessage is delivered only to the Subscription whose pending
  resend has the request id of the message. Two resends of the last five messages of
  \<^verbatim>\<open>stream1\<close> are requested on a new client; they get the request ids 0 and 1. A
  UnicastMessage with the request id 0 for \<^verbatim>\<open>stream1\<close> is then written to the queues
  of both resends, and so is one with the request id 7, which no resend has: the listener
  compares stream id and partition and never the request id.
\<close>

theorem unicast_reaches_every_resend_of_the_stream:
  "(case Subscriptions_resend resend_last_5 (new_client token 0, []) of
      (r1, st1) \<Rightarrow>
        (case Subscriptions_resend resend_last_5 st1 of
           (r2, cl2, ss2) \<Rightarrow>
             r1 = Inr 0 \<and> r2 = Inr 1
           \<and> sent cl2 = [ResendLastRequest ''stream1'' (Partition 0) 0 5 token,
                       ResendLastRequest ''stream1'' (Partition 0) 1 5 token]
           \<and> map ms_queue (emit_to_streams (unicast 0 (getStreamMessage ''stream1'')) ss2)
               = [[unicast 0 (getStreamMessage ''stream1'')], [unicast 0 (getStreamMessage ''stream1'')]]
           \<and> map ms_queue (emit_to_streams (unicast 7 (getStreamMessage ''stream1'')) ss2)
               = [[unicast 7 (getStreamMessage ''stream1'')], [unicast 7 (getStreamMessage ''stream1'')]]))"
  by (simp add: Subscriptions_resend_def resend_last_5_def validateOptions_def no_options_def
      messageStream_def waitForResponse_def on_def new_client_def new_connection_def Let_def
      resend_def resend_request_def send_request_def waitForRequestResponse_def PAIRS_def
      ResendResponses_def emit_to_streams_def onMessage_def isMatchingStreamMessage_def unicast_def
      getStreamMessage_def opt_streamId_def opt_streamPartition_def)

section \<open>Properties of the verification handle\<close>

lemma call_verifyFn_cached:
  "cached h = Some p \<Longrightarrow> call_verifyFn n h = (replicate n p, h)"
  by (induction n) (simp_all add: verifyFn_def)

lemma call_verifyFn_new:
  "cached h = None \<Longrightarrow>
   call_verifyFn n h
     = (replicate n (verifications h),
        if n = 0 then h else h\<lparr>cached := Some (verifications h), verifications := verifications h + 1\<rparr>)"
  by (cases n) (simp_all add: verifyFn_def call_verifyFn_cached)

lemma fan_out_cached:
  "cached h = Some p \<Longrightarrow> fan_out ks h = (map (\<lambda>n. replicate n p) ks, h)"
  by (induction ks) (simp_all add: call_verifyFn_cached)

lemma fan_out_new:
  "cached h = None \<Longrightarrow>
   fan_out ks h
     = (map (\<lambda>n. replicate n (verifications h)) ks,
        if sum_list ks = 0 then h
        else h\<lparr>cached := Some (verifications h), verifications := verifications h + 1\<rparr>)"
proof (induction ks)
  case Nil
  then show ?case by simp
next
  case (Cons k ks)
  show ?case
  proof (cases "k = 0")
    case True
    then show ?thesis using Cons by (simp add: call_verifyFn_new)
  next
    case False
    then show ?thesis using Cons.prems by (simp add: call_verifyFn_new fan_out_cached)
  qed
qed

text \<open>
  C2. A delivered message, broadcast or unicast, comes with a new handle and is routed to
  any number of Subscriptions, each of which calls the handle any number of times
  (\<open>ks\<close>, one number per Subscription). Every call of every Subscription returns the same
  promise, the one the first call made, and at most one verification is started: exactly
  one if the handle is called at all.
\<close>

theorem verification_shared:
  "fst (fan_out ks (new_handle started)) = map (\<lambda>n. replicate n started) ks
   \<and> verifications (snd (fan_out ks (new_handle started)))
       = (if sum_list ks = 0 then started else started + 1)"
  by (simp add: fan_out_new new_handle_def)

section \<open>Properties of the ordering tracker and the gap fill\<close>

text \<open>
  C3, as the claim states it, fails at the input of the repository's test and of the
  spec's scenario S4. The message \<open>(1, 0)\<close> is delivered first. For the next message, with
  the previous reference \<open>(3, 0)\<close>, the gap runs from \<open>(1, 1)\<close> to \<open>(3, 0)\<close>, as the test
  asserts, and not to the predecessor of \<open>(3, 0)\<close>, which is \<open>(3, -1)\<close>.
\<close>

theorem gap_end_is_not_predecessor:
  "delivered (track None (createMsg 1 0 None))
   \<and> lastRef (track None (createMsg 1 0 None)) = Some (1, 0)
   \<and> gap (track (Some (1, 0)) (createMsg 4 0 (Some (3, 0)))) = Some ((1, 1), (3, 0))
   \<and> gap (track (Some (1, 0)) (createMsg 4 0 (Some (3, 0)))) \<noteq> Some (successor (1, 0), predecessor (3, 0))"
  by (simp add: track_def createMsg_def msg_ref_def ref_le_def ref_less_def successor_def predecessor_def)

text \<open>
  C3, amended. A message \<open>m1\<close> has been delivered, and the next delivered message \<open>m2\<close>
  has a previous reference \<open>p\<close> greater than the reference of \<open>m1\<close>. Then \<open>m2\<close> comes with
  one gap, from the reference of \<open>m1\<close> with the sequence number one up to \<open>p\<close> itself.
  And of two gaps on one chain, the second arriving while the fill of the first is in
  flight, the second sends nothing: if no fill was in flight before, exactly the
  ResendRangeRequest for the range of the first gap is sent.
\<close>

theorem gap_detection:
  assumes "delivered (track l0 m1)"
    and "prevMsgRef m2 = Some p"
    and "ref_less (msg_ref m1) p"
    and "delivered (track (lastRef (track l0 m1)) m2)"
  shows "lastRef (track l0 m1) = Some (msg_ref m1)
       \<and> gap (track (lastRef (track l0 m1)) m2)
           = Some ((timestamp (messageId m1), sequenceNumber (messageId m1) + 1), p)
       \<and> (let g1 = on_gap sid part token fromRef toRef ch g0;
               g2 = on_gap sid part token fromRef' toRef' ch g1
           in gf_sent g2 = gf_sent g1
            \<and> (if ch \<in> set (gf_in_progress g0) then gf_sent g1 = gf_sent g0
                else gf_sent g1 = gf_sent g0
                  @ [ResendRangeRequest sid part (gf_next_id g0) fromRef toRef
                       (Some (fst ch)) (Some (snd ch)) token]))"
proof -
  have l1: "lastRef (track l0 m1) = Some (msg_ref m1)"
    using assms(1) by (auto simp: track_def split: option.splits if_splits)
  have ne: "p \<noteq> msg_ref m1"
    using assms(3) by (auto simp: ref_less_def)
  have "\<not> ref_le (msg_ref m2) (msg_ref m1)"
    using assms(4) assms(2) ne unfolding l1 by (auto simp: track_def split: if_splits)
  then have "gap (track (Some (msg_ref m1)) m2) = Some (successor (msg_ref m1), p)"
    using assms(2) ne by (simp add: track_def)
  then have g: "gap (track (lastRef (track l0 m1)) m2)
           = Some ((timestamp (messageId m1), sequenceNumber (messageId m1) + 1), p)"
    unfolding l1 by (simp add: successor_def msg_ref_def)
  show ?thesis
    using l1 g by (simp add: on_gap_def Let_def)
qed

text \<open>The theorem at scenario S4, references \<open>(1, 0)\<close> and then \<open>(5, 0)\<close> after \<open>(3, 0)\<close>,
  and at the two gaps of the client test, \<open>(1, 0)\<close> to \<open>(5, 0)\<close> and \<open>(1, 0)\<close> to
  \<open>(10, 0)\<close>.\<close>

theorem gap_detection_witness:
  "delivered (track None (createMsg 1 0 None))
   \<and> ref_less (msg_ref (createMsg 1 0 None)) (3, 0)
   \<and> delivered (track (lastRef (track None (createMsg 1 0 None))) (createMsg 5 0 (Some (3, 0))))
   \<and> gap (track (lastRef (track None (createMsg 1 0 None))) (createMsg 5 0 (Some (3, 0))))
       = Some ((1, 1), (3, 0))
   \<and> gf_sent (on_gap ''streamId'' (Partition 0) ''session-token'' (1, 0) (10, 0) (''publisherId'', ''msgChainId'')
        (on_gap ''streamId'' (Partition 0) ''session-token'' (1, 0) (5, 0) (''publisherId'', ''msgChainId'')
           \<lparr>gf_in_progress = [], gf_sent = [], gf_next_id = 2\<rparr>))
       = [ResendRangeRequest ''streamId'' (Partition 0) 2 (1, 0) (5, 0) (Some ''publisherId'') (Some ''msgChainId'')
            ''session-token'']"
proof -
  have h1: "delivered (track None (createMsg 1 0 None))"
    by (simp add: track_def)
  have h2: "prevMsgRef (createMsg 5 0 (Some (3, 0))) = Some (3, 0)"
    by (simp add: createMsg_def)
  have h3: "ref_less (msg_ref (createMsg 1 0 None)) (3, 0)"
    by (simp add: ref_less_def msg_ref_def createMsg_def)
  have h4: "delivered (track (lastRef (track None (createMsg 1 0 None))) (createMsg 5 0 (Some (3, 0))))"
    by (simp add: track_def createMsg_def msg_ref_def ref_le_def ref_less_def)
  note inst = gap_detection [OF h1 h2 h3 h4, where sid = "''streamId''" and part = "Partition 0"
        and token = "''session-token''" and fromRef = "(1, 0)" and toRef = "(5, 0)"
        and ch = "(''publisherId'', ''msgChainId'')" and fromRef' = "(1, 0)" and toRef' = "(10, 0)"
        and ?g0.0 = "\<lparr>gf_in_progress = [], gf_sent = [], gf_next_id = 2\<rparr>"]
  from inst have "gap (track (lastRef (track None (createMsg 1 0 None))) (createMsg 5 0 (Some (3, 0))))
      = Some ((timestamp (messageId (createMsg 1 0 None)),
               sequenceNumber (messageId (createMsg 1 0 None)) + 1), (3, 0))"
    by blast
  then have g: "gap (track (lastRef (track None (createMsg 1 0 None))) (createMsg 5 0 (Some (3, 0))))
      = Some ((1, 1), (3, 0))"
    by (simp add: createMsg_def)
  from inst have s: "gf_sent (on_gap ''streamId'' (Partition 0) ''session-token'' (1, 0) (10, 0) (''publisherId'', ''msgChainId'')
        (on_gap ''streamId'' (Partition 0) ''session-token'' (1, 0) (5, 0) (''publisherId'', ''msgChainId'')
           \<lparr>gf_in_progress = [], gf_sent = [], gf_next_id = 2\<rparr>))
       = [ResendRangeRequest ''streamId'' (Partition 0) 2 (1, 0) (5, 0) (Some ''publisherId'') (Some ''msgChainId'')
            ''session-token'']"
    by (simp add: Let_def)
  show ?thesis
    using h1 h3 h4 g s by blast
qed

end
